theory Spec2Isabelle
  imports Main
begin

section \<open>JavaScript values\<close>

text \<open>
  The values that \<^verbatim>\<open>src/index.js\<close> tells apart. Numbers are the integers, printed in
  decimal as JavaScript prints them below \<open>10\<^sup>2\<^sup>1\<close>, and \<^verbatim>\<open>NaN\<close>; strings are lists of
  8-bit code units. A function value is abstracted to the value it
  returns when it is called: the only call the serializer makes on a function of the tree
  is \<^verbatim>\<open>value.toJSON()\<close>. An object is the list of its own enumerable properties in
  enumeration order. A promise carries the time at which it settles and how it settles.
  A readable stream carries the chunks (or, in object mode, the items) it will emit and
  whether it then ends or fails.
\<close>

datatype error = Error string | TypeError

datatype 'a settlement = Fulfilled 'a | Rejected error

datatype ending = Ends | Fails error

datatype jsval =
    Undefined
  | Null
  | Bool bool
  | Num int
  | NaN
  | Str string
  | Fun jsval
  | Arr "jsval list"
  | Obj "(string \<times> jsval) list"
  | Promise nat "jsval settlement"
  | TextReadable "string list" ending
  | ObjectReadable "jsval list" ending

text \<open>\<^verbatim>\<open>value === undefined || value instanceof Function\<close>\<close>

fun absent :: "jsval \<Rightarrow> bool" where
  "absent Undefined = True"
| "absent (Fun r) = True"
| "absent v = False"

text \<open>JavaScript truthiness, for \<^verbatim>\<open>!replacer\<close> and \<^verbatim>\<open>value && ...\<close>.\<close>

fun truthy :: "jsval \<Rightarrow> bool" where
  "truthy Undefined = False"
| "truthy Null = False"
| "truthy (Bool b) = b"
| "truthy (Num n) = (n \<noteq> 0)"
| "truthy NaN = False"
| "truthy (Str s) = (s \<noteq> [])"
| "truthy v = True"

fun is_function :: "jsval \<Rightarrow> bool" where
  "is_function (Fun r) = True"
| "is_function v = False"

fun is_array :: "jsval \<Rightarrow> bool" where
  "is_array (Arr xs) = True"
| "is_array v = False"

section \<open>The platform's \<^verbatim>\<open>JSON.stringify\<close>\<close>

definition digit_char :: "nat \<Rightarrow> char" where
  "digit_char d =
     (if d = 0 then CHR ''0'' else if d = 1 then CHR ''1'' else if d = 2 then CHR ''2''
      else if d = 3 then CHR ''3'' else if d = 4 then CHR ''4'' else if d = 5 then CHR ''5''
      else if d = 6 then CHR ''6'' else if d = 7 then CHR ''7'' else if d = 8 then CHR ''8''
      else CHR ''9'')"

fun decimal :: "nat \<Rightarrow> string" where
  "decimal n = (if n < 10 then [digit_char n] else decimal (n div 10) @ [digit_char (n mod 10)])"

definition number_text :: "int \<Rightarrow> string" where
  "number_text i = (if i < 0 then CHR ''-'' # decimal (nat (- i)) else decimal (nat i))"

definition hex_char :: "nat \<Rightarrow> char" where
  "hex_char d =
     (if d < 10 then digit_char d else if d = 10 then CHR ''a'' else if d = 11 then CHR ''b''
      else if d = 12 then CHR ''c'' else if d = 13 then CHR ''d'' else if d = 14 then CHR ''e''
      else CHR ''f'')"

text \<open>
  The escape of one code unit inside a JSON string literal (ECMAScript's QuoteJSONString):
  the quote and the backslash get a backslash, the control characters their short escape
  or \<^verbatim>\<open>\u00XX\<close>, everything else is itself.
\<close>

definition escape_char :: "char \<Rightarrow> string" where
  "escape_char c =
     (if c = CHR 0x22 then [CHR 0x5C, CHR 0x22]
      else if c = CHR 0x5C then [CHR 0x5C, CHR 0x5C]
      else if c = CHR 0x08 then [CHR 0x5C, CHR ''b'']
      else if c = CHR 0x09 then [CHR 0x5C, CHR ''t'']
      else if c = CHR 0x0A then [CHR 0x5C, CHR ''n'']
      else if c = CHR 0x0C then [CHR 0x5C, CHR ''f'']
      else if c = CHR 0x0D then [CHR 0x5C, CHR ''r'']
      else if of_char c < (32 :: nat)
        then [CHR 0x5C, CHR ''u'', CHR ''0'', CHR ''0'',
              hex_char (of_char c div 16), hex_char (of_char c mod 16)]
      else [c])"

definition escape :: "string \<Rightarrow> string" where
  "escape s = concat (map escape_char s)"

definition quote :: "string \<Rightarrow> string" where
  "quote s = CHR 0x22 # escape s @ [CHR 0x22]"

fun join :: "string \<Rightarrow> string list \<Rightarrow> string" where
  "join sep [] = []"
| "join sep [x] = x"
| "join sep (x # y # ys) = x @ sep @ join sep (y # ys)"

text \<open>
  \<^verbatim>\<open>JSON.stringify(value)\<close> with no replacer, on a value that has no host object
  (promise, stream) and no \<^verbatim>\<open>toJSON\<close> method inside. \<open>None\<close> is the result
  \<^verbatim>\<open>undefined\<close>.
\<close>

primrec JSON_stringify :: "jsval \<Rightarrow> string option" where
  "JSON_stringify Undefined = None"
| "JSON_stringify Null = Some ''null''"
| "JSON_stringify (Bool b) = Some (if b then ''true'' else ''false'')"
| "JSON_stringify (Num i) = Some (number_text i)"
| "JSON_stringify NaN = Some ''null''"
| "JSON_stringify (Str s) = Some (quote s)"
| "JSON_stringify (Fun r) = None"
| "JSON_stringify (Arr xs) =
     Some (''['' @ join '','' (map (\<lambda>t. case t of None \<Rightarrow> ''null'' | Some u \<Rightarrow> u)
                                   (map JSON_stringify xs)) @ '']'')"
| "JSON_stringify (Obj ps) =
     Some (''{'' @ join '',''
        (concat (map (\<lambda>(k, t). case t of None \<Rightarrow> [] | Some u \<Rightarrow> [quote k @ '':'' @ u])
                     (map (map_prod id JSON_stringify) ps))) @ ''}'')"

text \<open>The value a generator yields for \<^verbatim>\<open>JSON.stringify(value)\<close>: a string or \<^verbatim>\<open>undefined\<close>.\<close>

definition stringified :: "jsval \<Rightarrow> jsval" where
  "stringified v = (case JSON_stringify v of None \<Rightarrow> Undefined | Some t \<Rightarrow> Str t)"

text \<open>\<^verbatim>\<open>s.slice(1, -1)\<close>\<close>

definition slice_1_m1 :: "string \<Rightarrow> string" where
  "slice_1_m1 s = butlast (tl s)"

section \<open>The serializer of \<^verbatim>\<open>src/index.js\<close>\<close>

text \<open>
  \<^verbatim>\<open>toJSON(value)\<close>, lines 6-8:
  \<^verbatim>\<open>(value && value.toJSON instanceof Function) ? value.toJSON() : value\<close>.
\<close>

definition toJSON :: "jsval \<Rightarrow> jsval" where
  "toJSON v =
     (case v of
        Obj ps \<Rightarrow> (case map_of ps ''toJSON'' of Some (Fun r) \<Rightarrow> r | _ \<Rightarrow> v)
      | _ \<Rightarrow> v)"


text \<open>
  The replacer after the constructor has normalized it: a function of the key and the
  value (\<^verbatim>\<open>this\<close> is not modelled), or an array.
\<close>

datatype replacer = RFunction "jsval \<Rightarrow> jsval \<Rightarrow> jsval" | RArray "jsval list"

text \<open>
  \<^verbatim>\<open>self.src\<close>: the bound text stream, whose chunks are raw text, or the
  \<^verbatim>\<open>ObjectReader\<close> around an object-mode stream, whose chunks are JSON text already.
\<close>

datatype source = TextSource "string list" ending | ReaderSource "string list" ending

text \<open>
  What a generator does, in order: it yields a value, assigns \<^verbatim>\<open>self.pMode\<close> or
  \<^verbatim>\<open>self.src\<close>, calls the replacer with a key and a value, or throws. A generator
  is the list of the actions it still has to perform; \<^verbatim>\<open>yield*\<close> appends the actions of
  the inner generator. The value that \<^verbatim>\<open>next(x)\<close> sends into a generator suspended at
  the \<^verbatim>\<open>yield\<close> of a promise is, in the only place that sends one (the \<^verbatim>\<open>then\<close>
  callback of \<^verbatim>\<open>_read\<close>), the value the promise was fulfilled with; the actions after
  that yield are written for that value. When the promise is rejected the generator is
  never resumed, and nothing follows the yield.
\<close>

datatype action =
    Yield jsval
  | SetPMode bool
  | SetSrc source
  | Call jsval jsval
  | Throw error

type_synonym generator = "action list option"

text \<open>Sequencing of two generators; \<open>None\<close> is a generator that ran out of fuel.\<close>

definition then_gen :: "generator \<Rightarrow> generator \<Rightarrow> generator" where
  "then_gen a b =
     (case a of None \<Rightarrow> None
      | Some x \<Rightarrow> (case b of None \<Rightarrow> None | Some y \<Rightarrow> Some (x @ y)))"

text \<open>\<^verbatim>\<open>Number(i).toString()\<close>\<close>

definition index_key :: "nat \<Rightarrow> jsval" where
  "index_key i = Str (decimal i)"

text \<open>\<^verbatim>\<open>`"${keys[i]}":`\<close>\<close>

definition key_label :: "string \<Rightarrow> jsval" where
  "key_label k = Str (CHR 0x22 # k @ [CHR 0x22, CHR '':''])"

text \<open>\<^verbatim>\<open>Object.assign({}, v)\<close>: the own enumerable properties of \<open>v\<close>. A string has its
  characters under their indices, an array its elements, a primitive, a function or a
  promise none; the internal fields of a stream are not modelled (taken as none).\<close>

fun indexed :: "nat \<Rightarrow> 'a list \<Rightarrow> (string \<times> 'a) list" where
  "indexed i [] = []"
| "indexed i (x # xs) = (decimal i, x) # indexed (Suc i) xs"

fun own_properties :: "jsval \<Rightarrow> (string \<times> jsval) list" where
  "own_properties (Obj ps) = ps"
| "own_properties (Arr xs) = indexed 0 xs"
| "own_properties (Str s) = indexed 0 (map (\<lambda>c. Str [c]) s)"
| "own_properties v = []"

text \<open>
  The replacer pipeline of \<^verbatim>\<open>arrayGenerator\<close>, lines 77-89: the calls it makes and the
  array \<^verbatim>\<open>arr\<close> it computes; no array (\<open>None\<close>) when \<^verbatim>\<open>.map\<close> is called on a result
  of the replacer that is not an array, which throws a \<^verbatim>\<open>TypeError\<close>.
\<close>

definition null_if_absent :: "jsval \<Rightarrow> jsval" where
  "null_if_absent v = (if absent v then Null else v)"

fun map_calls :: "(jsval \<Rightarrow> jsval \<Rightarrow> jsval) \<Rightarrow> nat \<Rightarrow> jsval list \<Rightarrow> action list" where
  "map_calls f i [] = []"
| "map_calls f i (x # xs) = Call (index_key i) x # map_calls f (Suc i) xs"

fun map_results :: "(jsval \<Rightarrow> jsval \<Rightarrow> jsval) \<Rightarrow> nat \<Rightarrow> jsval list \<Rightarrow> jsval list" where
  "map_results f i [] = []"
| "map_results f i (x # xs) = null_if_absent (f (index_key i) x) # map_results f (Suc i) xs"

definition array_replace :: "replacer \<Rightarrow> jsval list \<Rightarrow> action list \<times> jsval list option" where
  "array_replace r xs =
     (case r of
        RFunction f \<Rightarrow>
          (case f Undefined (Arr xs) of
             Arr ys \<Rightarrow> (Call Undefined (Arr xs) # map_calls f 0 ys, Some (map_results f 0 ys))
           | w \<Rightarrow> ([Call Undefined (Arr xs)], None))
      | RArray ks \<Rightarrow> ([], Some (map null_if_absent xs)))"

text \<open>
  The replacer pipeline of \<^verbatim>\<open>objectGenerator\<close>, lines 109-132: the calls it makes and
  the properties of \<^verbatim>\<open>obj\<close>, in the order of \<^verbatim>\<open>Object.keys(obj)\<close>.
\<close>

fun for_in_calls :: "(string \<times> jsval) list \<Rightarrow> action list" where
  "for_in_calls [] = []"
| "for_in_calls ((k, x) # ps) = Call (Str k) x # for_in_calls ps"

fun for_in_replace :: "(jsval \<Rightarrow> jsval \<Rightarrow> jsval) \<Rightarrow> (string \<times> jsval) list \<Rightarrow> (string \<times> jsval) list" where
  "for_in_replace f [] = []"
| "for_in_replace f ((k, x) # ps) =
     (if absent (f (Str k) x) then for_in_replace f ps
      else (k, f (Str k) x) # for_in_replace f ps)"

fun for_in_allow :: "jsval list \<Rightarrow> (string \<times> jsval) list \<Rightarrow> (string \<times> jsval) list" where
  "for_in_allow ks [] = []"
| "for_in_allow ks ((k, x) # ps) =
     (if x = Undefined \<or> is_function x \<or> Str k \<notin> set ks then for_in_allow ks ps
      else (k, x) # for_in_allow ks ps)"

definition object_replace :: "replacer \<Rightarrow> jsval \<Rightarrow> action list \<times> (string \<times> jsval) list" where
  "object_replace r v =
     (case r of
        RFunction f \<Rightarrow>
          (let obj = own_properties (f Undefined v)
           in (Call Undefined v # for_in_calls obj, for_in_replace f obj))
      | RArray ks \<Rightarrow> ([], for_in_allow ks (own_properties v)))"

text \<open>The loops of lines 93-98 and 136-142 over a generator \<open>g\<close> for the members.\<close>

fun array_loop :: "(jsval \<Rightarrow> generator) \<Rightarrow> jsval list \<Rightarrow> generator" where
  "array_loop g [] = Some []"
| "array_loop g [x] = g (toJSON x)"
| "array_loop g (x # y # ys) =
     then_gen (g (toJSON x)) (then_gen (Some [Yield (Str '','')]) (array_loop g (y # ys)))"

fun object_loop :: "(jsval \<Rightarrow> generator) \<Rightarrow> (string \<times> jsval) list \<Rightarrow> generator" where
  "object_loop g [] = Some []"
| "object_loop g [(k, x)] = then_gen (Some [Yield (key_label k)]) (g (toJSON x))"
| "object_loop g ((k, x) # p # ps) =
     then_gen (Some [Yield (key_label k)])
       (then_gen (g (toJSON x)) (then_gen (Some [Yield (Str '','')]) (object_loop g (p # ps))))"

section \<open>The demand bridge: \<^verbatim>\<open>_read\<close>\<close>

datatype signal = Data string | End | ErrorEvent error

datatype status = Running | Ended | Errored error | Crashed error

text \<open>
  The stream object: the fields the source assigns (\<^verbatim>\<open>jsonIterator\<close>, \<^verbatim>\<open>src\<close>,
  \<^verbatim>\<open>pMode\<close>), what it has handed to the transport so far (\<open>out\<close>), whether the
  transport will call \<^verbatim>\<open>_read\<close> again (\<open>status\<close>), and the time (\<open>now\<close>).
\<close>

record JStream =
  jsonIterator :: "action list"
  src :: "source option"
  pMode :: bool
  out :: "signal list"
  status :: status
  now :: nat

datatype iterator_result = IterValue jsval | IterDone | IterThrow error

text \<open>\<^verbatim>\<open>this.jsonIterator.next()\<close>: run the generator up to its next yield.\<close>

fun run_actions :: "action list \<Rightarrow> JStream \<Rightarrow> iterator_result \<times> JStream" where
  "run_actions [] s = (IterDone, s\<lparr>jsonIterator := []\<rparr>)"
| "run_actions (Yield v # k) s = (IterValue v, s\<lparr>jsonIterator := k\<rparr>)"
| "run_actions (SetPMode b # k) s = run_actions k (s\<lparr>pMode := b\<rparr>)"
| "run_actions (SetSrc x # k) s = run_actions k (s\<lparr>src := Some x\<rparr>)"
| "run_actions (Call key v # k) s = run_actions k s"
| "run_actions (Throw e # k) s = (IterThrow e, s\<lparr>jsonIterator := []\<rparr>)"

definition iterator_next :: "JStream \<Rightarrow> iterator_result \<times> JStream" where
  "iterator_next s = run_actions (jsonIterator s) s"

text \<open>
  \<^verbatim>\<open>this.push(chunk)\<close> of the transport: a string is delivered, \<^verbatim>\<open>undefined\<close> counts
  as the empty chunk, \<^verbatim>\<open>null\<close> ends the output, anything else is an invalid chunk.
  \<^verbatim>\<open>this.emit('error', err)\<close> delivers the error; nothing calls \<^verbatim>\<open>_read\<close> after it.
\<close>

definition emit_error :: "error \<Rightarrow> JStream \<Rightarrow> JStream" where
  "emit_error e s = s\<lparr>out := out s @ [ErrorEvent e], status := Errored e\<rparr>"

definition push :: "jsval \<Rightarrow> JStream \<Rightarrow> JStream" where
  "push chunk s =
     (case chunk of
        Str t \<Rightarrow> s\<lparr>out := out s @ [Data t]\<rparr>
      | Undefined \<Rightarrow> s\<lparr>out := out s @ [Data []]\<rparr>
      | Null \<Rightarrow> s\<lparr>out := out s @ [End], status := Ended\<rparr>
      | _ \<Rightarrow> emit_error TypeError s)"

text \<open>
  Lines 172-177, \<^verbatim>\<open>value.then(x => {...}).catch(err => this.emit('error', err))\<close>: the
  callback resumes the generator with the value of the promise and pushes what it yields
  next; a rejection, or an exception of the callback, is emitted as the error. A value
  without \<^verbatim>\<open>then\<close> makes \<^verbatim>\<open>_read\<close> throw.
\<close>

definition on_fulfilled :: "JStream \<Rightarrow> JStream" where
  "on_fulfilled s =
     (case iterator_next s of
        (IterValue w, s2) \<Rightarrow> push w s2
      | (IterDone, s2) \<Rightarrow> push Undefined s2
      | (IterThrow e, s2) \<Rightarrow> emit_error e s2)"

definition await :: "jsval \<Rightarrow> JStream \<Rightarrow> JStream" where
  "await v s =
     (case v of
        Promise t (Fulfilled x) \<Rightarrow> on_fulfilled (s\<lparr>now := max (now s) t\<rparr>)
      | Promise t (Rejected e) \<Rightarrow> emit_error e (s\<lparr>now := max (now s) t\<rparr>)
      | _ \<Rightarrow> s\<lparr>status := Crashed TypeError\<rparr>)"

text \<open>Lines 161-180 of \<^verbatim>\<open>_read\<close>: no source is bound.\<close>

definition read_iterator :: "JStream \<Rightarrow> JStream" where
  "read_iterator s =
     (case iterator_next s of
        (IterThrow e, s1) \<Rightarrow> s1\<lparr>status := Crashed e\<rparr>
      | (IterDone, s1) \<Rightarrow> push Null s1
      | (IterValue v, s1) \<Rightarrow>
          if v = Undefined then push (Str []) s1
          else if pMode s1 then await v s1
          else push v s1)"

text \<open>
  \<^verbatim>\<open>_read()\<close>, one demand of the transport together with the one event of the bound
  source that answers it: a chunk (lines 152-158), the end of the source (the handlers of
  lines 44-47 and 52-55, which unbind it and call \<^verbatim>\<open>_read\<close> again) or its failure
  (lines 48 and 56).
\<close>

definition read :: "JStream \<Rightarrow> JStream" where
  "read s =
     (case src s of
        None \<Rightarrow> read_iterator s
      | Some (TextSource (c # cs) e) \<Rightarrow>
          push (Str (slice_1_m1 (quote c))) (s\<lparr>src := Some (TextSource cs e)\<rparr>)
      | Some (ReaderSource (c # cs) e) \<Rightarrow>
          push (Str c) (s\<lparr>src := Some (ReaderSource cs e)\<rparr>)
      | Some (TextSource [] Ends) \<Rightarrow> read_iterator (s\<lparr>src := None\<rparr>)
      | Some (ReaderSource [] Ends) \<Rightarrow> read_iterator (s\<lparr>src := None\<rparr>)
      | Some (TextSource [] (Fails e)) \<Rightarrow> emit_error e s
      | Some (ReaderSource [] (Fails e)) \<Rightarrow> emit_error e s)"

text \<open>What is left to do: the bound source's chunks and the generator's actions.\<close>

fun source_weight :: "source \<Rightarrow> nat" where
  "source_weight (TextSource cs e) = Suc (length cs)"
| "source_weight (ReaderSource cs e) = Suc (length cs)"

fun action_weight :: "action \<Rightarrow> nat" where
  "action_weight (SetSrc x) = Suc (source_weight x)"
| "action_weight a = 1"

definition work_left :: "JStream \<Rightarrow> nat" where
  "work_left s =
     (if status s = Running
      then Suc (sum_list (map action_weight (jsonIterator s))
                + (case src s of None \<Rightarrow> 0 | Some x \<Rightarrow> source_weight x))
      else 0)"


lemma run_actions_work:
  "run_actions acts s = (res, s') \<Longrightarrow>
     sum_list (map action_weight (jsonIterator s'))
       + (case src s' of None \<Rightarrow> 0 | Some x \<Rightarrow> source_weight x)
       + (case res of IterValue v \<Rightarrow> 1 | _ \<Rightarrow> 0)
     \<le> sum_list (map action_weight acts)
       + (case src s of None \<Rightarrow> 0 | Some x \<Rightarrow> source_weight x)
   \<and> status s' = status s \<and> out s' = out s \<and> now s' = now s"
proof (induction acts s arbitrary: res s' rule: run_actions.induct)
  case (4 x k s)
  from 4(2) have "run_actions k (s\<lparr>src := Some x\<rparr>) = (res, s')" by simp
  from 4(1)[OF this] show ?case by (auto split: option.splits)
qed (auto split: option.splits)

lemma push_work: "work_left (push c s) \<le> work_left s"
  by (cases c) (auto simp: push_def emit_error_def work_left_def)

lemma on_fulfilled_work: "work_left (on_fulfilled s) \<le> work_left s"
proof -
  obtain res s2 where n: "iterator_next s = (res, s2)" by (cases "iterator_next s")
  from run_actions_work[OF n[unfolded iterator_next_def]]
  have "work_left s2 \<le> work_left s" by (auto simp: work_left_def)
  moreover have "work_left (on_fulfilled s) \<le> work_left s2"
    using n push_work[of _ s2]
    by (cases res) (auto simp: on_fulfilled_def emit_error_def work_left_def)
  ultimately show ?thesis by simp
qed

lemma await_work: "work_left (await v s) \<le> work_left s"
proof (cases v)
  case (Promise t p)
  have "work_left (s\<lparr>now := max (now s) t\<rparr>) = work_left s" by (simp add: work_left_def)
  with on_fulfilled_work[of "s\<lparr>now := max (now s) t\<rparr>"] Promise show ?thesis
    by (cases p) (auto simp: await_def emit_error_def work_left_def)
qed (auto simp: await_def work_left_def)

lemma read_iterator_work:
  assumes "status s = Running"
  shows "work_left (read_iterator s)
           \<le> sum_list (map action_weight (jsonIterator s))
             + (case src s of None \<Rightarrow> 0 | Some x \<Rightarrow> source_weight x)"
proof -
  obtain res s1 where n1: "iterator_next s = (res, s1)" by (cases "iterator_next s")
  note w1 = run_actions_work[OF n1[unfolded iterator_next_def]]
  show ?thesis
  proof (cases res)
    case IterDone
    with n1 show ?thesis by (simp add: read_iterator_def push_def work_left_def)
  next
    case (IterThrow e)
    with n1 show ?thesis by (simp add: read_iterator_def work_left_def)
  next
    case (IterValue v)
    with w1 assms have "work_left s1 \<le> sum_list (map action_weight (jsonIterator s))
             + (case src s of None \<Rightarrow> 0 | Some x \<Rightarrow> source_weight x)"
      by (simp add: work_left_def)
    moreover have "work_left (read_iterator s) \<le> work_left s1"
      using n1 IterValue push_work[of _ s1] await_work[of v s1]
      by (auto simp: read_iterator_def)
    ultimately show ?thesis by simp
  qed
qed

lemma read_work: "status s = Running \<Longrightarrow> work_left (read s) < work_left s"
proof -
  assume run: "status s = Running"
  show ?thesis
  proof (cases "src s")
    case None
    with read_iterator_work[OF run] run show ?thesis
      by (simp add: read_def work_left_def)
  next
    case (Some x)
    have unbound: "work_left (read_iterator (s\<lparr>src := None\<rparr>)) < work_left s"
      using read_iterator_work[of "s\<lparr>src := None\<rparr>"] run Some
      by (cases x) (auto simp: work_left_def)
    have data: "work_left (push c (s\<lparr>src := Some y\<rparr>)) < work_left s"
      if "source_weight y < source_weight x" for c y
      using push_work[of c "s\<lparr>src := Some y\<rparr>"] run Some that
      by (auto simp: work_left_def)
    have failed: "work_left (emit_error e s) < work_left s" for e
      using run by (simp add: emit_error_def work_left_def)
    show ?thesis
    proof (cases x)
      case (TextSource cs e)
      with Some unbound data failed show ?thesis
        by (cases cs; cases e) (auto simp: read_def)
    next
      case (ReaderSource cs e)
      with Some unbound data failed show ?thesis
        by (cases cs; cases e) (auto simp: read_def)
    qed
  qed
qed

text \<open>
  The transport: it calls \<^verbatim>\<open>_read\<close> again after every chunk, until the output has ended
  or an error has been emitted.
\<close>

function drive :: "JStream \<Rightarrow> JStream" where
  "drive s = (if status s = Running then drive (read s) else s)"
  by pat_completeness auto
termination
  by (relation "measure work_left") (auto simp: read_work)

declare drive.simps [simp del]


text \<open>A stream that has done nothing yet, over a generator.\<close>

definition fresh :: "action list \<Rightarrow> JStream" where
  "fresh acts =
     \<lparr>jsonIterator = acts, src = None, pMode = False, out = [], status = Running, now = 0\<rparr>"

fun text_of :: "signal list \<Rightarrow> string" where
  "text_of [] = []"
| "text_of (Data t # sigs) = t @ text_of sigs"
| "text_of (sig # sigs) = text_of sigs"

text \<open>
  Modelled from the spec: \<^verbatim>\<open>src/object.reader.js\<close>, the \<^verbatim>\<open>ObjectReader\<close> that line 4
  requires, is not among the sources. By section 4.4 of the spec it serializes the items
  of the object-mode stream in arrival order, each one on its own through the hook, the
  classification and the replacer pipeline (an absent item as \<^verbatim>\<open>null\<close>, as in a
  sequence), one item to completion before the next, comma-separated; it ends when the
  stream ends and fails when the stream or an item fails, and what it emitted before
  stays emitted. The brackets are those of lines 49 and 50. \<open>g\<close> is the generator for an
  item; \<open>serialize_item\<close> is the run of one item on its own.
\<close>

definition serialize_item :: "(jsval \<Rightarrow> generator) \<Rightarrow> jsval \<Rightarrow> JStream option" where
  "serialize_item g x = map_option (\<lambda>acts. drive (fresh acts)) (g (toJSON (null_if_absent x)))"

text \<open>
  Modelled from the spec: the chunks of the \<^verbatim>\<open>ObjectReader\<close> (absent source file, see
  above), one per item, with a comma before every item but the first, and how the reader
  then finishes.
\<close>

fun reader_chunks ::
  "(jsval \<Rightarrow> generator) \<Rightarrow> bool \<Rightarrow> jsval list \<Rightarrow> ending \<Rightarrow> (string list \<times> ending) option" where
  "reader_chunks g first [] e = Some ([], e)"
| "reader_chunks g first (x # xs) e =
     (case serialize_item g x of
        None \<Rightarrow> None
      | Some s \<Rightarrow>
          (let chunk = (if first then [] else '','') @ text_of (out s)
           in case status s of
                Ended \<Rightarrow>
                  (case reader_chunks g False xs e of
                     None \<Rightarrow> None
                   | Some (cs, e') \<Rightarrow> Some (chunk # cs, e'))
              | Errored err \<Rightarrow> Some ([chunk], Fails err)
              | Crashed err \<Rightarrow> Some ([chunk], Fails err)
              | Running \<Rightarrow> None))"

text \<open>
  Modelled from the spec: \<^verbatim>\<open>new ObjectReader(value, replacer)\<close> (absent source file, see
  above), as the source the bridge binds.
\<close>

definition ObjectReader :: "(jsval \<Rightarrow> generator) \<Rightarrow> jsval list \<Rightarrow> ending \<Rightarrow> source option" where
  "ObjectReader g items e =
     (case reader_chunks g True items e of
        None \<Rightarrow> None
      | Some (cs, e') \<Rightarrow> Some (ReaderSource cs e'))"

text \<open>
  The three generators of the constructor, lines 27-144. The first argument is fuel: the
  depth of nested generator calls allowed, since a replacer function may return ever
  larger values; \<open>None\<close> is a generator that needs more.
\<close>

fun jsonGenerator :: "nat \<Rightarrow> replacer \<Rightarrow> jsval \<Rightarrow> generator"
  and arrayGenerator :: "nat \<Rightarrow> replacer \<Rightarrow> jsval list \<Rightarrow> generator"
  and objectGenerator :: "nat \<Rightarrow> replacer \<Rightarrow> jsval \<Rightarrow> generator" where
  "jsonGenerator 0 r v = None"
| "jsonGenerator (Suc n) r v =
     (case v of
        Arr xs \<Rightarrow> arrayGenerator n r xs
      | Promise t p \<Rightarrow>
          (case p of
             Fulfilled resolved \<Rightarrow>
               then_gen (Some [SetPMode True, Yield v, SetPMode False]) (jsonGenerator n r resolved)
           | Rejected e \<Rightarrow> Some [SetPMode True, Yield v])
      | ObjectReadable items e \<Rightarrow>
          (case ObjectReader (jsonGenerator n r) items e of
             None \<Rightarrow> None
           | Some reader \<Rightarrow> Some [SetSrc reader, Yield (Str ''[''), Yield (Str '']'')])
      | TextReadable cs e \<Rightarrow>
          Some [SetSrc (TextSource cs e), Yield (Str [CHR 0x22]), Yield (Str [CHR 0x22])]
      | Obj ps \<Rightarrow> objectGenerator n r v
      | _ \<Rightarrow> Some [Yield (stringified v)])"
| "arrayGenerator n r xs =
     (case array_replace r xs of
        (calls, None) \<Rightarrow> Some (calls @ [Throw TypeError])
      | (calls, Some arr) \<Rightarrow>
          then_gen (Some (calls @ [Yield (Str ''['')]))
            (then_gen (array_loop (jsonGenerator n r) arr) (Some [Yield (Str '']'')])))"
| "objectGenerator n r v =
     (case object_replace r v of
        (calls, obj) \<Rightarrow>
          then_gen (Some (Yield (Str ''{'') # calls))
            (then_gen (object_loop (jsonGenerator n r) obj) (Some [Yield (Str ''}'')])))"

text \<open>
  The replacer argument of the constructor: a function of key and value, or any other
  value (\<^verbatim>\<open>undefined\<close> when none is passed). Lines 16-20 keep a function or an array
  and replace everything else by the identity function.
\<close>

datatype replacer_arg = ReplacerFunction "jsval \<Rightarrow> jsval \<Rightarrow> jsval" | ReplacerValue jsval

fun arg_truthy :: "replacer_arg \<Rightarrow> bool" where
  "arg_truthy (ReplacerFunction f) = True"
| "arg_truthy (ReplacerValue v) = truthy v"

fun arg_is_function :: "replacer_arg \<Rightarrow> bool" where
  "arg_is_function (ReplacerFunction f) = True"
| "arg_is_function (ReplacerValue v) = is_function v"

fun arg_is_array :: "replacer_arg \<Rightarrow> bool" where
  "arg_is_array (ReplacerFunction f) = False"
| "arg_is_array (ReplacerValue v) = is_array v"

definition identity_replacer :: replacer where
  "identity_replacer = RFunction (\<lambda>key value. value)"

definition normalize_replacer :: "replacer_arg \<Rightarrow> replacer" where
  "normalize_replacer a =
     (if \<not> arg_truthy a \<or> (\<not> arg_is_function a \<and> \<not> arg_is_array a) then identity_replacer
      else (case a of
              ReplacerFunction f \<Rightarrow> RFunction f
            | ReplacerValue (Arr ks) \<Rightarrow> RArray ks
            | ReplacerValue (Fun c) \<Rightarrow> RFunction (\<lambda>key value. c)
            | ReplacerValue v \<Rightarrow> identity_replacer))"

text \<open>\<^verbatim>\<open>new JStream(obj, replacer)\<close>, lines 12-23.\<close>

definition JStream_new :: "nat \<Rightarrow> jsval \<Rightarrow> replacer_arg \<Rightarrow> JStream option" where
  "JStream_new n obj a =
     map_option fresh (jsonGenerator n (normalize_replacer a) (toJSON obj))"

text \<open>Reading the stream to its end: the stream when the transport stops calling \<^verbatim>\<open>_read\<close>.\<close>

definition serialize :: "nat \<Rightarrow> jsval \<Rightarrow> replacer_arg \<Rightarrow> JStream option" where
  "serialize n obj a = map_option drive (JStream_new n obj a)"

text \<open>The concatenation of the fragments, as the tests of the repository collect it.\<close>

definition emitted :: "nat \<Rightarrow> jsval \<Rightarrow> replacer_arg \<Rightarrow> (string \<times> status) option" where
  "emitted n obj a = map_option (\<lambda>s. (text_of (out s), status s)) (serialize n obj a)"

text \<open>
  The replacer of the repository's tests, \<^verbatim>\<open>(key, value) => key ? 2 * value : value\<close>.
  The product is taken where the value is a number; any other operand gives \<^verbatim>\<open>NaN\<close>
  here (JavaScript would first convert it to a number).
\<close>

definition doubling :: "jsval \<Rightarrow> jsval \<Rightarrow> jsval" where
  "doubling key v = (if truthy key then (case v of Num i \<Rightarrow> Num (2 * i) | _ \<Rightarrow> NaN) else v)"

text \<open>A replacer that fills in a default, \<^verbatim>\<open>(key, value) => value === undefined ? 5 : value\<close>.\<close>

definition defaulting :: "jsval \<Rightarrow> jsval \<Rightarrow> jsval" where
  "defaulting key v = (if v = Undefined then Num 5 else v)"

section \<open>What the transport observes\<close>

text \<open>The signals of a whole run and the state the run stopped in.\<close>

definition signals :: "nat \<Rightarrow> jsval \<Rightarrow> replacer_arg \<Rightarrow> (signal list \<times> status) option" where
  "signals n obj a = map_option (\<lambda>s. (out s, status s)) (serialize n obj a)"

text \<open>
  The transport sees neither the calls of the replacer nor what a yielded promise holds or
  when it settles, only whether it is fulfilled or rejected: the observable part of a
  generator, and a stream with the clock and those details erased.
\<close>

fun observe_value :: "jsval \<Rightarrow> jsval" where
  "observe_value (Promise t (Fulfilled x)) = Promise 0 (Fulfilled Undefined)"
| "observe_value (Promise t (Rejected e)) = Promise 0 (Rejected e)"
| "observe_value v = v"

fun observe :: "action \<Rightarrow> action list" where
  "observe (Call k v) = []"
| "observe (Yield v) = [Yield (observe_value v)]"
| "observe a = [a]"

definition observable :: "action list \<Rightarrow> action list" where
  "observable acts = concat (map observe acts)"

definition observed :: "JStream \<Rightarrow> JStream" where
  "observed s = s\<lparr>jsonIterator := observable (jsonIterator s), now := 0\<rparr>"

fun observe_result :: "iterator_result \<Rightarrow> iterator_result" where
  "observe_result (IterValue v) = IterValue (observe_value v)"
| "observe_result r = r"

definition shown :: "generator \<Rightarrow> generator" where
  "shown = map_option observable"

definition seen :: "JStream option \<Rightarrow> (signal list \<times> status) option" where
  "seen = map_option (\<lambda>s. (out s, status s))"

text \<open>One demand hands the transport one signal; a whole run hands it fragments and then at
  most one terminal signal.\<close>

definition one_signal :: "JStream \<Rightarrow> JStream \<Rightarrow> bool" where
  "one_signal s s' \<longleftrightarrow>
     (status s' = Running \<and> (\<exists>t. out s' = out s @ [Data t]))
   \<or> (status s' = Ended \<and> out s' = out s @ [End])
   \<or> (\<exists>e. status s' = Errored e \<and> out s' = out s @ [ErrorEvent e])
   \<or> (\<exists>e. status s' = Crashed e \<and> out s' = out s)"

definition run_shape :: "JStream \<Rightarrow> JStream \<Rightarrow> bool" where
  "run_shape s s' \<longleftrightarrow>
     (\<exists>ds. (status s' = Ended \<and> out s' = out s @ map Data ds @ [End])
         \<or> (\<exists>e. status s' = Errored e \<and> out s' = out s @ map Data ds @ [ErrorEvent e])
         \<or> (\<exists>e. status s' = Crashed e \<and> out s' = out s @ map Data ds))"

text \<open>
  The same tree with other settling times: \<open>d\<close> maps the time of every promise. A
  replacer is oblivious of the times when it commutes with that (a JavaScript function
  cannot read when a promise will settle).
\<close>

primrec retime :: "(nat \<Rightarrow> nat) \<Rightarrow> jsval \<Rightarrow> jsval" where
  "retime d Undefined = Undefined"
| "retime d Null = Null"
| "retime d (Bool b) = Bool b"
| "retime d (Num i) = Num i"
| "retime d NaN = NaN"
| "retime d (Str s) = Str s"
| "retime d (Fun c) = Fun (retime d c)"
| "retime d (Arr xs) = Arr (map (retime d) xs)"
| "retime d (Obj ps) = Obj (map (map_prod id (retime d)) ps)"
| "retime d (Promise t p) = Promise (d t) (map_settlement (retime d) p)"
| "retime d (TextReadable cs e) = TextReadable cs e"
| "retime d (ObjectReadable xs e) = ObjectReadable (map (retime d) xs) e"


text \<open>
  The tree in which every object keeps exactly the members whose key is in the allowlist
  and whose value is neither \<^verbatim>\<open>undefined\<close> nor a function, in their order, at every
  depth, and every array keeps all its elements. \<open>hook_free\<close>: no object of the tree
  has a \<^verbatim>\<open>toJSON\<close> method.
\<close>

primrec keep_allowed :: "jsval list \<Rightarrow> jsval \<Rightarrow> jsval" where
  "keep_allowed ks Undefined = Undefined"
| "keep_allowed ks Null = Null"
| "keep_allowed ks (Bool b) = Bool b"
| "keep_allowed ks (Num i) = Num i"
| "keep_allowed ks NaN = NaN"
| "keep_allowed ks (Str s) = Str s"
| "keep_allowed ks (Fun c) = Fun c"
| "keep_allowed ks (Arr xs) = Arr (map (keep_allowed ks) xs)"
| "keep_allowed ks (Obj ps) =
     Obj (filter (\<lambda>(k, x). Str k \<in> set ks \<and> \<not> absent x) (map (map_prod id (keep_allowed ks)) ps))"
| "keep_allowed ks (Promise t p) = Promise t (map_settlement (keep_allowed ks) p)"
| "keep_allowed ks (TextReadable cs e) = TextReadable cs e"
| "keep_allowed ks (ObjectReadable xs e) = ObjectReadable (map (keep_allowed ks) xs) e"

primrec hook_free :: "jsval \<Rightarrow> bool" where
  "hook_free Undefined = True"
| "hook_free Null = True"
| "hook_free (Bool b) = True"
| "hook_free (Num i) = True"
| "hook_free NaN = True"
| "hook_free (Str s) = True"
| "hook_free (Fun c) = True"
| "hook_free (Arr xs) = list_all (\<lambda>b. b) (map hook_free xs)"
| "hook_free (Obj ps) =
     ((case map_of ps ''toJSON'' of Some (Fun c) \<Rightarrow> False | _ \<Rightarrow> True)
      \<and> list_all (\<lambda>p. snd p) (map (map_prod id hook_free) ps))"
| "hook_free (Promise t p) = (case map_settlement hook_free p of Fulfilled b \<Rightarrow> b | Rejected e \<Rightarrow> True)"
| "hook_free (TextReadable cs e) = True"
| "hook_free (ObjectReadable xs e) = list_all (\<lambda>b. b) (map hook_free xs)"


text \<open>
  The values of JSON: \<^verbatim>\<open>null\<close>, booleans, numbers, strings, arrays and plain objects of
  such values. \<open>plain_keys\<close>: no key of any object has a character that a JSON string
  literal escapes. \<open>depth\<close>: how deep arrays and objects are nested.
\<close>

primrec json_representable :: "jsval \<Rightarrow> bool" where
  "json_representable Undefined = False"
| "json_representable Null = True"
| "json_representable (Bool b) = True"
| "json_representable (Num i) = True"
| "json_representable NaN = True"
| "json_representable (Str s) = True"
| "json_representable (Fun c) = False"
| "json_representable (Arr xs) = list_all (\<lambda>b. b) (map json_representable xs)"
| "json_representable (Obj ps) = list_all (\<lambda>p. snd p) (map (map_prod id json_representable) ps)"
| "json_representable (Promise t p) = False"
| "json_representable (TextReadable cs e) = False"
| "json_representable (ObjectReadable xs e) = False"

primrec plain_keys :: "jsval \<Rightarrow> bool" where
  "plain_keys Undefined = True"
| "plain_keys Null = True"
| "plain_keys (Bool b) = True"
| "plain_keys (Num i) = True"
| "plain_keys NaN = True"
| "plain_keys (Str s) = True"
| "plain_keys (Fun c) = True"
| "plain_keys (Arr xs) = list_all (\<lambda>b. b) (map plain_keys xs)"
| "plain_keys (Obj ps) = list_all (\<lambda>p. escape (fst p) = fst p \<and> snd p) (map (map_prod id plain_keys) ps)"
| "plain_keys (Promise t p) = True"
| "plain_keys (TextReadable cs e) = True"
| "plain_keys (ObjectReadable xs e) = True"

primrec depth :: "jsval \<Rightarrow> nat" where
  "depth Undefined = 0"
| "depth Null = 0"
| "depth (Bool b) = 0"
| "depth (Num i) = 0"
| "depth NaN = 0"
| "depth (Str s) = 0"
| "depth (Fun c) = 0"
| "depth (Arr xs) = Suc (foldr max (map depth xs) 0)"
| "depth (Obj ps) = Suc (foldr max (map snd (map (map_prod id depth) ps)) 0)"
| "depth (Promise t p) = 0"
| "depth (TextReadable cs e) = 0"
| "depth (ObjectReadable xs e) = 0"

text \<open>A generator that yields the fragments \<open>ts\<close> and nothing else; a generator, if it
  returns, whose observable part is such fragments with the text \<open>t\<close>.\<close>

definition yields :: "string list \<Rightarrow> action list" where
  "yields ts = map (\<lambda>t. Yield (Str t)) ts"

definition writes :: "generator \<Rightarrow> string \<Rightarrow> bool" where
  "writes g t \<longleftrightarrow> (\<forall>acts. g = Some acts \<longrightarrow> (\<exists>ts. observable acts = yields ts \<and> concat ts = t))"

section \<open>Running the bridge\<close>

lemma drive_step: "status s = Running \<Longrightarrow> drive s = drive (read s)"
  by (subst drive.simps) simp

lemma drive_stop: "status s \<noteq> Running \<Longrightarrow> drive s = s"
  by (subst drive.simps) simp

lemmas bridge_eval = drive_step drive_stop read_def read_iterator_def iterator_next_def push_def
  await_def on_fulfilled_def emit_error_def fresh_def

lemmas run_eval = emitted_def serialize_def JStream_new_def normalize_replacer_def toJSON_def

section \<open>The replacer pipeline as maps and filters\<close>

lemma map_calls_indexed: "map_calls f i ys = map (\<lambda>(k, y). Call (Str k) y) (indexed i ys)"
  by (induction ys arbitrary: i) (simp_all add: index_key_def)

lemma map_results_indexed:
  "map_results f i ys = map (\<lambda>(k, y). null_if_absent (f (Str k) y)) (indexed i ys)"
  by (induction ys arbitrary: i) (simp_all add: index_key_def)

lemma for_in_calls_map: "for_in_calls ps = map (\<lambda>(k, x). Call (Str k) x) ps"
  by (induction ps) auto

lemma for_in_replace_filter:
  "for_in_replace f ps =
     map (\<lambda>(k, x). (k, f (Str k) x)) (filter (\<lambda>(k, x). \<not> absent (f (Str k) x)) ps)"
  by (induction ps) auto

lemma for_in_allow_filter:
  "for_in_allow ks ps = filter (\<lambda>(k, x). Str k \<in> set ks \<and> \<not> absent x) ps"
proof (induction ps)
  case (Cons p ps)
  obtain k x where p: "p = (k, x)" by (cases p)
  show ?case using Cons by (cases x) (auto simp: p)
qed simp

lemma map_results_identity: "map_results (\<lambda>key value. value) i ys = map null_if_absent ys"
  by (induction ys arbitrary: i) simp_all

lemma for_in_replace_identity:
  "for_in_replace (\<lambda>key value. value) ps = filter (\<lambda>(k, x). \<not> absent x) ps"
  by (induction ps) auto

lemma filter_filter_absent:
  "filter (\<lambda>(k, x). \<not> absent x) (filter (\<lambda>(k, x). \<not> absent x) ps) = filter (\<lambda>(k, x). \<not> absent x) ps"
  by (induction ps) auto

lemma for_in_allow_filter_absent:
  "for_in_allow ks (filter (\<lambda>(k, x). \<not> absent x) ps) = for_in_allow ks ps"
  by (induction ps) (auto simp: for_in_allow_filter)

lemma null_if_absent_idem: "null_if_absent (null_if_absent v) = null_if_absent v"
  by (simp add: null_if_absent_def)

section \<open>Bound sources\<close>

lemma slice_quote: "slice_1_m1 (quote c) = escape c"
  by (simp add: slice_1_m1_def quote_def)


lemma text_of_append: "text_of (xs @ ys) = text_of xs @ text_of ys"
  by (induction xs rule: text_of.induct) simp_all

lemma text_of_Data: "text_of (map Data ts) = concat ts"
  by (induction ts) simp_all

lemma drive_text_chunks:
  "status s = Running \<Longrightarrow> src s = Some (TextSource cs e) \<Longrightarrow>
     drive s = drive (s\<lparr>src := Some (TextSource [] e), out := out s @ map (\<lambda>c. Data (escape c)) cs\<rparr>)"
proof (induction cs arbitrary: s)
  case Nil
  then show ?case by (cases s) simp
next
  case (Cons c cs)
  let ?s' = "s\<lparr>src := Some (TextSource cs e), out := out s @ [Data (escape c)]\<rparr>"
  have "drive s = drive (read s)" using Cons.prems by (simp add: drive_step)
  also have "read s = ?s'"
    using Cons.prems by (cases s) (simp add: read_def push_def slice_quote)
  also have "drive ?s' = drive (?s'\<lparr>src := Some (TextSource [] e), out := out ?s' @ map (\<lambda>c. Data (escape c)) cs\<rparr>)"
    using Cons.prems by (intro Cons.IH) simp_all
  finally show ?case by simp
qed

lemma drive_reader_chunks:
  "status s = Running \<Longrightarrow> src s = Some (ReaderSource cs e) \<Longrightarrow>
     drive s = drive (s\<lparr>src := Some (ReaderSource [] e), out := out s @ map Data cs\<rparr>)"
proof (induction cs arbitrary: s)
  case Nil
  then show ?case by (cases s) simp
next
  case (Cons c cs)
  let ?s' = "s\<lparr>src := Some (ReaderSource cs e), out := out s @ [Data c]\<rparr>"
  have "drive s = drive (read s)" using Cons.prems by (simp add: drive_step)
  also have "read s = ?s'"
    using Cons.prems by (cases s) (simp add: read_def push_def)
  also have "drive ?s' = drive (?s'\<lparr>src := Some (ReaderSource [] e), out := out ?s' @ map Data cs\<rparr>)"
    using Cons.prems by (intro Cons.IH) simp_all
  finally show ?case by simp
qed


lemma drive_source_failed:
  assumes "status s = Running"
    and "src s = Some (TextSource [] (Fails e)) \<or> src s = Some (ReaderSource [] (Fails e))"
  shows "drive s = s\<lparr>out := out s @ [ErrorEvent e], status := Errored e\<rparr>"
proof -
  have "drive s = drive (read s)" using assms by (simp add: drive_step)
  also have "read s = s\<lparr>out := out s @ [ErrorEvent e], status := Errored e\<rparr>"
    using assms by (cases s) (auto simp: read_def emit_error_def)
  finally show ?thesis by (simp add: drive_stop)
qed


lemma drive_finished:
  assumes "status s = Running" "src s = None" "jsonIterator s = []"
  shows "drive s = s\<lparr>out := out s @ [End], status := Ended\<rparr>"
proof -
  have "drive s = drive (read s)" using assms by (simp add: drive_step)
  also have "read s = s\<lparr>out := out s @ [End], status := Ended\<rparr>"
    using assms by (cases s) (auto simp: read_def read_iterator_def iterator_next_def push_def)
  finally show ?thesis by (simp add: drive_stop)
qed



lemma drive_rejected:
  assumes "status s = Running" "src s = None"
    and "jsonIterator s = SetPMode True # Yield (Promise t (Rejected e)) # rest"
  shows "drive s = s\<lparr>jsonIterator := rest, pMode := True, now := max (now s) t,
                      out := out s @ [ErrorEvent e], status := Errored e\<rparr>"
proof -
  have "drive s = drive (read s)" using assms by (simp add: drive_step)
  also have "read s = s\<lparr>jsonIterator := rest, pMode := True, now := max (now s) t,
                      out := out s @ [ErrorEvent e], status := Errored e\<rparr>"
    using assms
    by (cases s) (auto simp: read_def read_iterator_def iterator_next_def await_def emit_error_def)
  finally show ?thesis by (simp add: drive_stop)
qed

section \<open>The shape of a run\<close>

lemma push_signal:
  "status s = Running \<Longrightarrow>
     (status (push c s) = Running \<and> (\<exists>t. out (push c s) = out s @ [Data t]))
   \<or> (status (push c s) = Ended \<and> out (push c s) = out s @ [End])
   \<or> (\<exists>e. status (push c s) = Errored e \<and> out (push c s) = out s @ [ErrorEvent e])"
  by (cases c) (auto simp: push_def emit_error_def)

lemma iterator_next_keeps:
  "iterator_next s = (res, s') \<Longrightarrow> status s' = status s \<and> out s' = out s"
  using run_actions_work[of "jsonIterator s" s res s'] by (simp add: iterator_next_def)

lemma on_fulfilled_signal: "status s = Running \<Longrightarrow> one_signal s (on_fulfilled s)"
proof -
  assume run: "status s = Running"
  obtain res s2 where n: "iterator_next s = (res, s2)" by (cases "iterator_next s")
  from iterator_next_keeps[OF n] run have k: "status s2 = Running" "out s2 = out s" by simp_all
  show ?thesis using n k push_signal[of s2]
    by (cases res) (auto simp: on_fulfilled_def one_signal_def emit_error_def)
qed

lemma await_signal: "status s = Running \<Longrightarrow> one_signal s (await v s)"
proof (cases v)
  case (Promise t p)
  assume run: "status s = Running"
  from on_fulfilled_signal[of "s\<lparr>now := max (now s) t\<rparr>"] run
  have "one_signal s (on_fulfilled (s\<lparr>now := max (now s) t\<rparr>))"
    by (simp add: one_signal_def)
  with Promise show ?thesis
    by (cases p) (auto simp: await_def one_signal_def emit_error_def)
qed (auto simp: await_def one_signal_def)

lemma read_iterator_signal: "status s = Running \<Longrightarrow> one_signal s (read_iterator s)"
proof -
  assume run: "status s = Running"
  obtain res s1 where n: "iterator_next s = (res, s1)" by (cases "iterator_next s")
  from iterator_next_keeps[OF n] run have k: "status s1 = Running" "out s1 = out s" by simp_all
  have "one_signal s1 (read_iterator s)"
    using n k push_signal[of s1] await_signal[of s1]
    by (cases res) (auto simp: read_iterator_def one_signal_def)
  with k show ?thesis by (simp add: one_signal_def)
qed

lemma read_signal: "status s = Running \<Longrightarrow> one_signal s (read s)"
proof -
  assume run: "status s = Running"
  have unbound: "one_signal s (read_iterator (s\<lparr>src := None\<rparr>))"
    using read_iterator_signal[of "s\<lparr>src := None\<rparr>"] run by (simp add: one_signal_def)
  have data: "one_signal s (push (Str t) (s\<lparr>src := y\<rparr>))" for t y
    using run by (simp add: push_def one_signal_def)
  have failed: "one_signal s (emit_error e s)" for e
    by (simp add: emit_error_def one_signal_def)
  show ?thesis
  proof (cases "src s")
    case None
    with read_iterator_signal[OF run] show ?thesis by (simp add: read_def)
  next
    case (Some x)
    show ?thesis
    proof (cases x)
      case (TextSource cs e)
      with Some unbound data failed show ?thesis
        by (cases cs; cases e) (simp_all add: read_def)
    next
      case (ReaderSource cs e)
      with Some unbound data failed show ?thesis
        by (cases cs; cases e) (simp_all add: read_def)
    qed
  qed
qed

lemma drive_shape: "status s = Running \<Longrightarrow> run_shape s (drive s)"
proof (induction s rule: drive.induct)
  case (1 s)
  note run = \<open>status s = Running\<close>
  have d: "drive s = drive (read s)" using run by (simp add: drive_step)
  from read_signal[OF run] show ?case
    unfolding one_signal_def
  proof (elim disjE conjE exE)
    fix t assume r: "status (read s) = Running" and o: "out (read s) = out s @ [Data t]"
    from 1(1)[OF run r] obtain ds where
      "(status (drive (read s)) = Ended \<and> out (drive (read s)) = out (read s) @ map Data ds @ [End])
         \<or> (\<exists>e. status (drive (read s)) = Errored e \<and> out (drive (read s)) = out (read s) @ map Data ds @ [ErrorEvent e])
         \<or> (\<exists>e. status (drive (read s)) = Crashed e \<and> out (drive (read s)) = out (read s) @ map Data ds)"
      unfolding run_shape_def by blast
    with o d have
      "(status (drive s) = Ended \<and> out (drive s) = out s @ map Data (t # ds) @ [End])
         \<or> (\<exists>e. status (drive s) = Errored e \<and> out (drive s) = out s @ map Data (t # ds) @ [ErrorEvent e])
         \<or> (\<exists>e. status (drive s) = Crashed e \<and> out (drive s) = out s @ map Data (t # ds))"
      by auto
    then show ?thesis unfolding run_shape_def by blast
  next
    assume "status (read s) = Ended" "out (read s) = out s @ [End]"
    with d have "status (drive s) = Ended \<and> out (drive s) = out s @ map Data [] @ [End]"
      by (simp add: drive_stop)
    then show ?thesis unfolding run_shape_def by blast
  next
    fix e assume "status (read s) = Errored e" "out (read s) = out s @ [ErrorEvent e]"
    with d have "status (drive s) = Errored e \<and> out (drive s) = out s @ map Data [] @ [ErrorEvent e]"
      by (simp add: drive_stop)
    then show ?thesis unfolding run_shape_def by blast
  next
    fix e assume "status (read s) = Crashed e" "out (read s) = out s"
    with d have "status (drive s) = Crashed e \<and> out (drive s) = out s @ map Data []"
      by (simp add: drive_stop)
    then show ?thesis unfolding run_shape_def by blast
  qed
qed

lemma error_event_last:
  "map Data ds @ [ErrorEvent e] = pre @ ErrorEvent e' # post \<Longrightarrow>
     post = [] \<and> pre = map Data ds \<and> e = e'"
proof (cases post rule: rev_cases)
  case Nil
  assume "map Data ds @ [ErrorEvent e] = pre @ ErrorEvent e' # post"
  with Nil show ?thesis by simp
next
  case (snoc ys y)
  assume "map Data ds @ [ErrorEvent e] = pre @ ErrorEvent e' # post"
  with snoc have "map Data ds @ [ErrorEvent e] = (pre @ ErrorEvent e' # ys) @ [y]" by simp
  then have "map Data ds = pre @ ErrorEvent e' # ys" by (simp only: append1_eq_conv)
  then have "ErrorEvent e' \<in> set (map Data ds)" by simp
  then show ?thesis by auto
qed

lemma no_error_event:
  "map Data ds @ [End] \<noteq> pre @ ErrorEvent e' # post" "map Data ds \<noteq> pre @ ErrorEvent e' # post"
proof -
  show "map Data ds \<noteq> pre @ ErrorEvent e' # post"
  proof
    assume "map Data ds = pre @ ErrorEvent e' # post"
    then have "ErrorEvent e' \<in> set (map Data ds)" by simp
    then show False by auto
  qed
  show "map Data ds @ [End] \<noteq> pre @ ErrorEvent e' # post"
  proof
    assume "map Data ds @ [End] = pre @ ErrorEvent e' # post"
    then have "ErrorEvent e' \<in> set (map Data ds @ [End])" by simp
    then show False by auto
  qed
qed

section \<open>Runs that the transport cannot tell apart\<close>

lemma observe_value_Undefined [simp]: "observe_value v = Undefined \<longleftrightarrow> v = Undefined"
  by (cases v rule: observe_value.cases) simp_all

lemma push_observe_value [simp]: "push (observe_value v) s = push v s"
  by (cases v rule: observe_value.cases) (simp_all add: push_def)

lemma observable_simps [simp]:
  "observable [] = []"
  "observable (a # acts) = observe a @ observable acts"
  "observable (xs @ ys) = observable xs @ observable ys"
  by (simp_all add: observable_def)

lemma observed_updates:
  "observed (s\<lparr>pMode := b\<rparr>) = (observed s)\<lparr>pMode := b\<rparr>"
  "observed (s\<lparr>src := x\<rparr>) = (observed s)\<lparr>src := x\<rparr>"
  "observed (s\<lparr>jsonIterator := k\<rparr>) = (observed s)\<lparr>jsonIterator := observable k\<rparr>"
  "observed (s\<lparr>now := t\<rparr>) = observed s"
  "observed (s\<lparr>status := st\<rparr>) = (observed s)\<lparr>status := st\<rparr>"
  "observed (s\<lparr>out := ou\<rparr>) = (observed s)\<lparr>out := ou\<rparr>"
  "(observed s)\<lparr>now := 0\<rparr> = observed s"
  by (cases s; simp add: observed_def)+

lemma observed_fields [simp]:
  "status (observed s) = status s" "out (observed s) = out s" "src (observed s) = src s"
  "pMode (observed s) = pMode s" "now (observed s) = 0"
  "jsonIterator (observed s) = observable (jsonIterator s)"
  by (simp_all add: observed_def)

lemma run_actions_observed:
  "run_actions (observable acts) (observed s)
     = (observe_result (fst (run_actions acts s)), observed (snd (run_actions acts s)))"
  by (induction acts s rule: run_actions.induct) (simp_all add: observed_updates)

lemma iterator_next_observed:
  "iterator_next s = (res, s') \<Longrightarrow> iterator_next (observed s) = (observe_result res, observed s')"
  by (simp add: iterator_next_def run_actions_observed)

lemma push_observed: "push c (observed s) = observed (push c s)"
  by (cases c) (simp_all add: push_def observed_updates emit_error_def)

lemma emit_error_observed: "emit_error e (observed s) = observed (emit_error e s)"
  by (simp add: observed_updates emit_error_def)

lemma on_fulfilled_observed: "on_fulfilled (observed s) = observed (on_fulfilled s)"
proof -
  obtain res s2 where n: "iterator_next s = (res, s2)" by (cases "iterator_next s")
  from iterator_next_observed[OF n] n show ?thesis
    by (cases res) (simp_all add: on_fulfilled_def push_observed emit_error_observed)
qed

lemma await_observed: "await (observe_value v) (observed s) = observed (await v s)"
proof (cases v)
  case (Promise t p)
  have "on_fulfilled (observed s) = observed (on_fulfilled (s\<lparr>now := max (now s) t\<rparr>))"
    using on_fulfilled_observed[of "s\<lparr>now := max (now s) t\<rparr>"] by (simp add: observed_updates)
  moreover have "emit_error e (observed s) = observed (emit_error e (s\<lparr>now := max (now s) t\<rparr>))" for e
    using emit_error_observed[of e "s\<lparr>now := max (now s) t\<rparr>"] by (simp add: observed_updates)
  ultimately show ?thesis using Promise
    by (cases p) (simp_all add: await_def observed_updates)
qed (simp_all add: await_def observed_updates)

lemma read_iterator_observed: "read_iterator (observed s) = observed (read_iterator s)"
proof -
  obtain res s1 where n1: "iterator_next s = (res, s1)" by (cases "iterator_next s")
  from iterator_next_observed[OF n1] n1 show ?thesis
    by (cases res)
       (simp_all add: read_iterator_def push_observed await_observed observed_updates)
qed

lemma read_observed: "read (observed s) = observed (read s)"
proof (cases "src s")
  case None
  then show ?thesis by (simp add: read_def read_iterator_observed)
next
  case (Some x)
  have unbind: "read_iterator ((observed s)\<lparr>src := None\<rparr>) = observed (read_iterator (s\<lparr>src := None\<rparr>))"
    using read_iterator_observed[of "s\<lparr>src := None\<rparr>"] by (simp add: observed_updates)
  have data: "push c ((observed s)\<lparr>src := y\<rparr>) = observed (push c (s\<lparr>src := y\<rparr>))" for c y
    using push_observed[of c "s\<lparr>src := y\<rparr>"] by (simp add: observed_updates)
  show ?thesis
  proof (cases x)
    case (TextSource cs e)
    with Some unbind data show ?thesis
      by (cases cs; cases e) (simp_all add: read_def emit_error_observed)
  next
    case (ReaderSource cs e)
    with Some unbind data show ?thesis
      by (cases cs; cases e) (simp_all add: read_def emit_error_observed)
  qed
qed

lemma drive_observed: "drive (observed s) = observed (drive s)"
proof (induction s rule: drive.induct)
  case (1 s)
  show ?case
  proof (cases "status s = Running")
    case True
    have "drive (observed s) = drive (read (observed s))"
      using True by (subst drive.simps) simp
    also have "\<dots> = observed (drive (read s))"
      using 1[OF True] by (simp add: read_observed)
    also have "drive (read s) = drive s"
      using True by (subst (2) drive.simps) simp
    finally show ?thesis .
  next
    case False
    then show ?thesis by (simp add: drive.simps)
  qed
qed

lemma shown_simps [simp]:
  "shown None = None" "shown (Some acts) = Some (observable acts)"
  by (simp_all add: shown_def)

lemma shown_then_gen: "shown (then_gen a b) = then_gen (shown a) (shown b)"
  by (cases a; cases b) (simp_all add: then_gen_def)

lemma array_loop_cong:
  "(\<And>x. x \<in> set xs \<Longrightarrow> shown (g (toJSON (h x))) = shown (g' (toJSON x))) \<Longrightarrow>
     shown (array_loop g (map h xs)) = shown (array_loop g' xs)"
  by (induction g' xs rule: array_loop.induct) (simp_all add: shown_then_gen)

lemma object_loop_cong:
  "(\<And>k x. (k, x) \<in> set ps \<Longrightarrow> shown (g (toJSON (h x))) = shown (g' (toJSON x))) \<Longrightarrow>
     shown (object_loop g (map (map_prod id h) ps)) = shown (object_loop g' ps)"
proof (induction g' ps rule: object_loop.induct)
  case (3 g' k x p ps)
  have "shown (object_loop g (map (map_prod id h) (p # ps))) = shown (object_loop g' (p # ps))"
    using 3(2) by (intro 3(1)) auto
  moreover have "shown (g (toJSON (h x))) = shown (g' (toJSON x))"
    by (rule 3(2)[of k x]) simp
  moreover have "object_loop g (map (map_prod id h) ((k, x) # p # ps))
      = then_gen (Some [Yield (key_label k)])
          (then_gen (g (toJSON (h x)))
             (then_gen (Some [Yield (Str '','')]) (object_loop g (map (map_prod id h) (p # ps)))))"
    by (cases p) simp
  ultimately show ?case by (simp only: object_loop.simps shown_then_gen)
qed (simp_all add: shown_then_gen)

lemma drive_fresh_observable:
  assumes "observable acts = observable acts'"
  shows "out (drive (fresh acts)) = out (drive (fresh acts'))"
    and "status (drive (fresh acts)) = status (drive (fresh acts'))"
proof -
  have f: "observed (fresh a) = fresh (observable a)" for a
    by (simp add: observed_def fresh_def)
  have "observed (drive (fresh acts)) = observed (drive (fresh acts'))"
    using assms by (simp add: drive_observed[symmetric] f)
  then have "out (observed (drive (fresh acts))) = out (observed (drive (fresh acts')))"
    and "status (observed (drive (fresh acts))) = status (observed (drive (fresh acts')))"
    by simp_all
  then show "out (drive (fresh acts)) = out (drive (fresh acts'))"
    and "status (drive (fresh acts)) = status (drive (fresh acts'))"
    by simp_all
qed

lemma seen_drive_fresh:
  "shown a = shown b \<Longrightarrow> seen (map_option (\<lambda>acts. drive (fresh acts)) a)
                 = seen (map_option (\<lambda>acts. drive (fresh acts)) b)"
  by (cases a; cases b) (auto simp: seen_def dest: drive_fresh_observable)

lemma observable_map_calls [simp]: "observable (map_calls f i ys) = []"
  by (induction ys arbitrary: i) simp_all

lemma observable_for_in_calls [simp]: "observable (for_in_calls ps) = []"
  by (induction ps) auto

lemma emitted_signals:
  "emitted n obj a = map_option (\<lambda>(sigs, st). (text_of sigs, st)) (signals n obj a)"
  by (simp add: emitted_def signals_def option.map_comp comp_def)

section \<open>The items of an object-mode stream\<close>



lemma reader_chunks_cong:
  "(\<And>x. x \<in> set items \<Longrightarrow> seen (serialize_item g (h x)) = seen (serialize_item g' x)) \<Longrightarrow>
     reader_chunks g first (map h items) e = reader_chunks g' first items e"
proof (induction items arbitrary: first)
  case Nil
  then show ?case by simp
next
  case (Cons x xs)
  have tail: "reader_chunks g False (map h xs) e = reader_chunks g' False xs e"
    using Cons by simp
  have "seen (serialize_item g (h x)) = seen (serialize_item g' x)" using Cons.prems by simp
  then show ?case using tail
    by (cases "serialize_item g (h x)"; cases "serialize_item g' x")
       (auto simp: seen_def Let_def split: status.splits)
qed

section \<open>Settling times\<close>

lemma retime_absent [simp]: "absent (retime d v) = absent v"
  by (cases v) simp_all

lemma retime_Undefined [simp]: "retime d v = Undefined \<longleftrightarrow> v = Undefined"
  by (cases v) simp_all

lemma retime_is_function [simp]: "is_function (retime d v) = is_function v"
  by (cases v) simp_all










section \<open>The allowlist\<close>

lemma keep_absent [simp]: "absent (keep_allowed ks v) = absent v"
  by (cases v) simp_all

lemma keep_null_if_absent: "null_if_absent (keep_allowed ks v) = keep_allowed ks (null_if_absent v)"
  by (simp add: null_if_absent_def)

lemma toJSON_Obj_unhooked:
  "(\<And>c. map_of ps ''toJSON'' \<noteq> Some (Fun c)) \<Longrightarrow> toJSON (Obj ps) = Obj ps"
proof (cases "map_of ps ''toJSON''")
  case None
  then show ?thesis by (simp add: toJSON_def)
next
  case (Some w)
  assume "\<And>c. map_of ps ''toJSON'' \<noteq> Some (Fun c)"
  with Some show ?thesis by (cases w) (simp_all add: toJSON_def)
qed

lemma keep_toJSON: "toJSON (keep_allowed ks v) = keep_allowed ks v"
proof (cases v)
  case (Obj ps)
  let ?ps = "filter (\<lambda>(k, x). Str k \<in> set ks \<and> \<not> absent x) (map (map_prod id (keep_allowed ks)) ps)"
  have "map_of ?ps ''toJSON'' \<noteq> Some (Fun c)" for c
  proof
    assume "map_of ?ps ''toJSON'' = Some (Fun c)"
    from map_of_SomeD[OF this] show False by auto
  qed
  then have "toJSON (Obj ?ps) = Obj ?ps" by (rule toJSON_Obj_unhooked)
  with Obj show ?thesis by simp
qed (simp_all add: toJSON_def)

lemma hook_free_toJSON: "hook_free v \<Longrightarrow> toJSON v = v"
proof (cases v)
  case (Obj ps)
  assume "hook_free v"
  with Obj have "map_of ps ''toJSON'' \<noteq> Some (Fun c)" for c
    by (auto split: option.splits)
  then show ?thesis unfolding Obj by (rule toJSON_Obj_unhooked)
qed (simp_all add: toJSON_def)

lemma hook_free_null_if_absent: "hook_free v \<Longrightarrow> hook_free (null_if_absent v)"
  by (simp add: null_if_absent_def)

lemma keep_filter:
  "filter (\<lambda>(k, x). Str k \<in> set ks \<and> \<not> absent x) (map (map_prod id (keep_allowed ks)) ps)
     = map (map_prod id (keep_allowed ks)) (filter (\<lambda>(k, x). Str k \<in> set ks \<and> \<not> absent x) ps)"
  by (induction ps) auto

lemma allowlist_generator:
  "hook_free v \<Longrightarrow>
     shown (jsonGenerator n identity_replacer (keep_allowed ks v)) = shown (jsonGenerator n (RArray ks) v)"
proof (induction n arbitrary: v)
  case 0
  show ?case by simp
next
  case (Suc n)
  let ?g = "jsonGenerator n identity_replacer" and ?g' = "jsonGenerator n (RArray ks)"
  have member: "shown (?g (toJSON (keep_allowed ks x))) = shown (?g' (toJSON x))" if "hook_free x" for x
    using that by (simp add: keep_toJSON hook_free_toJSON Suc.IH)
  show ?case
  proof (cases v)
    case (Arr xs)
    have "shown (array_loop ?g (map (keep_allowed ks) (map null_if_absent xs)))
            = shown (array_loop ?g' (map null_if_absent xs))"
    proof (rule array_loop_cong)
      fix x assume "x \<in> set (map null_if_absent xs)"
      with Suc.prems Arr have "hook_free x"
        by (auto simp: list_all_iff hook_free_null_if_absent)
      then show "shown (?g (toJSON (keep_allowed ks x))) = shown (?g' (toJSON x))" by (rule member)
    qed
    then show ?thesis using Arr
      by (simp add: array_replace_def identity_replacer_def shown_then_gen map_results_identity
            keep_null_if_absent comp_def)
  next
    case (Obj ps)
    let ?P = "\<lambda>(k, x). Str k \<in> set ks \<and> \<not> absent x"
    have "shown (object_loop ?g (map (map_prod id (keep_allowed ks)) (filter ?P ps)))
            = shown (object_loop ?g' (filter ?P ps))"
    proof (rule object_loop_cong)
      fix k x assume "(k, x) \<in> set (filter ?P ps)"
      with Suc.prems Obj have "hook_free x"
        by (auto simp: list_all_iff)
      then show "shown (?g (toJSON (keep_allowed ks x))) = shown (?g' (toJSON x))" by (rule member)
    qed
    moreover have "filter (\<lambda>(k, x). \<not> absent x) (map (map_prod id (keep_allowed ks)) (filter ?P ps))
                     = map (map_prod id (keep_allowed ks)) (filter ?P ps)"
      by (induction ps) auto
    ultimately show ?thesis using Obj
      by (simp add: object_replace_def identity_replacer_def shown_then_gen for_in_replace_identity
            for_in_allow_filter keep_filter Let_def)
  next
    case (Promise t p)
    then show ?thesis using Suc.prems Suc.IH by (cases p) (simp_all add: shown_then_gen)
  next
    case (ObjectReadable items e)
    have "reader_chunks ?g True (map (keep_allowed ks) items) e = reader_chunks ?g' True items e"
    proof (rule reader_chunks_cong)
      fix x assume "x \<in> set items"
      with Suc.prems ObjectReadable have "hook_free (null_if_absent x)"
        by (auto simp: list_all_iff hook_free_null_if_absent)
      then have "shown (?g (toJSON (null_if_absent (keep_allowed ks x))))
              = shown (?g' (toJSON (null_if_absent x)))"
        by (simp add: keep_null_if_absent member)
      then show "seen (serialize_item ?g (keep_allowed ks x)) = seen (serialize_item ?g' x)"
        unfolding serialize_item_def by (rule seen_drive_fresh)
    qed
    then show ?thesis using ObjectReadable by (simp add: ObjectReader_def)
  qed (simp_all add: stringified_def)
qed

section \<open>Absent values\<close>

lemma absent_toJSON: "absent v \<Longrightarrow> toJSON v = v"
  by (cases v) (simp_all add: toJSON_def)

lemma absent_generator: "absent v \<Longrightarrow> jsonGenerator (Suc n) r v = Some [Yield Undefined]"
  by (cases v) (simp_all add: stringified_def)

lemma drive_absent_root:
  "drive (fresh [Yield Undefined])
     = \<lparr>jsonIterator = [], src = None, pMode = False, out = [Data [], End], status = Ended, now = 0\<rparr>"
  by (simp add: bridge_eval)

section \<open>The identity replacer and \<^verbatim>\<open>JSON.stringify\<close>\<close>

text \<open>
  For a JSON value whose keys need no escaping, the stream with no replacer emits exactly
  the text of \<^verbatim>\<open>JSON.stringify\<close>, once the fuel exceeds the nesting depth.
\<close>

lemma observable_yields [simp]: "observable (yields ts) = yields ts"
  by (induction ts) (simp_all add: yields_def)

lemma yields_append: "yields (xs @ ys) = yields xs @ yields ys"
  by (simp add: yields_def)

lemma drive_yields:
  "status s = Running \<Longrightarrow> src s = None \<Longrightarrow> \<not> pMode s \<Longrightarrow> jsonIterator s = yields ts \<Longrightarrow>
     drive s = s\<lparr>jsonIterator := [], out := out s @ map Data ts @ [End], status := Ended\<rparr>"
proof (induction ts arbitrary: s)
  case Nil
  then show ?case using drive_finished[of s] by (cases s) (simp add: yields_def)
next
  case (Cons t ts)
  let ?s' = "s\<lparr>jsonIterator := yields ts, out := out s @ [Data t]\<rparr>"
  have "drive s = drive (read s)" using Cons.prems by (simp add: drive_step)
  also have "read s = ?s'"
    using Cons.prems
    by (cases s) (simp add: read_def read_iterator_def iterator_next_def push_def yields_def)
  also have "drive ?s' = ?s'\<lparr>jsonIterator := [], out := out ?s' @ map Data ts @ [End], status := Ended\<rparr>"
    using Cons.prems by (intro Cons.IH) simp_all
  finally show ?case by simp
qed

lemma json_not_absent: "json_representable v \<Longrightarrow> \<not> absent v"
  by (cases v) simp_all

lemma json_toJSON: "json_representable v \<Longrightarrow> toJSON v = v"
proof (cases v)
  case (Obj ps)
  assume j: "json_representable v"
  have "map_of ps ''toJSON'' \<noteq> Some (Fun c)" for c
  proof
    assume "map_of ps ''toJSON'' = Some (Fun c)"
    from map_of_SomeD[OF this] j Obj show False by (auto simp: list_all_iff)
  qed
  then show ?thesis unfolding Obj by (rule toJSON_Obj_unhooked)
qed (simp_all add: toJSON_def)

lemma json_stringify_Some: "json_representable v \<Longrightarrow> \<exists>t. JSON_stringify v = Some t"
  by (cases v) simp_all

lemma writes_then_gen: "writes a t \<Longrightarrow> writes b u \<Longrightarrow> writes (then_gen a b) (t @ u)"
proof -
  assume a: "writes a t" and b: "writes b u"
  show ?thesis
    unfolding writes_def
  proof (intro allI impI)
    fix acts assume "then_gen a b = Some acts"
    then obtain x y where x: "a = Some x" and y: "b = Some y" and acts: "acts = x @ y"
      by (auto simp: then_gen_def split: option.splits)
    from a x obtain ts where ts: "observable x = yields ts" "concat ts = t"
      unfolding writes_def by blast
    from b y obtain us where us: "observable y = yields us" "concat us = u"
      unfolding writes_def by blast
    from ts us acts have "observable acts = yields (ts @ us) \<and> concat (ts @ us) = t @ u"
      by (simp add: yields_append)
    then show "\<exists>ts. observable acts = yields ts \<and> concat ts = t @ u" by blast
  qed
qed

lemma writes_Some: "observable acts = yields ts \<Longrightarrow> writes (Some acts) (concat ts)"
  unfolding writes_def by blast

lemma writes_one: "writes (Some [Yield (Str t)]) t"
  using writes_Some[of "[Yield (Str t)]" "[t]"] by (simp add: yields_def)

lemma writes_array_loop:
  "(\<And>x. x \<in> set xs \<Longrightarrow> writes (g (toJSON x)) (T x)) \<Longrightarrow>
     writes (array_loop g xs) (join '','' (map T xs))"
proof (induction g xs rule: array_loop.induct)
  case (1 g)
  show ?case using writes_Some[of "[]" "[]"] by (simp add: yields_def)
next
  case (2 g x)
  then show ?case by simp
next
  case (3 g x y ys)
  have "writes (array_loop g (y # ys)) (join '','' (map T (y # ys)))"
    using 3(2) by (intro 3(1)) simp
  moreover have "writes (g (toJSON x)) (T x)" by (rule 3(2)) simp
  ultimately show ?case
    using writes_then_gen[OF _ writes_then_gen[OF writes_one[of "'',''"]], of "g (toJSON x)" "T x"]
    by simp
qed

lemma writes_object_loop:
  "(\<And>k x. (k, x) \<in> set ps \<Longrightarrow> writes (g (toJSON x)) (T x)) \<Longrightarrow>
     writes (object_loop g ps)
       (join '','' (map (\<lambda>(k, x). CHR 0x22 # k @ [CHR 0x22, CHR '':''] @ T x) ps))"
proof (induction g ps rule: object_loop.induct)
  case (1 g)
  show ?case using writes_Some[of "[]" "[]"] by (simp add: yields_def)
next
  case (2 g k x)
  have "writes (g (toJSON x)) (T x)" by (rule 2[of k x]) simp
  from writes_then_gen[OF writes_one this, of "CHR 0x22 # k @ [CHR 0x22, CHR '':'']"]
  show ?case by (simp add: key_label_def)
next
  case (3 g k x p ps)
  have tail: "writes (object_loop g (p # ps))
       (join '','' (map (\<lambda>(k, x). CHR 0x22 # k @ [CHR 0x22, CHR '':''] @ T x) (p # ps)))"
    using 3(2) by (intro 3(1)) auto
  have head: "writes (g (toJSON x)) (T x)" by (rule 3(2)[of k x]) simp
  from writes_then_gen[OF writes_one writes_then_gen[OF head writes_then_gen[OF writes_one tail]],
      of "CHR 0x22 # k @ [CHR 0x22, CHR '':'']" "'',''"]
  show ?case by (cases p) (simp add: key_label_def)
qed

lemma foldr_max_ge: "x \<in> set xs \<Longrightarrow> (x::nat) \<le> foldr max xs 0"
  by (induction xs) auto

lemma json_elements_present: "list_all (\<lambda>b. b) (map json_representable xs) \<Longrightarrow> map null_if_absent xs = xs"
  by (induction xs) (auto simp: null_if_absent_def dest: json_not_absent)

lemma json_members_present:
  "list_all (\<lambda>p. snd p) (map (map_prod id json_representable) ps) \<Longrightarrow>
     filter (\<lambda>(k, x). \<not> absent x) ps = ps"
  by (induction ps) (auto dest: json_not_absent)

lemma json_elements_text:
  "list_all (\<lambda>b. b) (map json_representable xs) \<Longrightarrow>
     map ((\<lambda>t. case t of None \<Rightarrow> ''null'' | Some u \<Rightarrow> u) \<circ> JSON_stringify) xs
       = map (\<lambda>x. the (JSON_stringify x)) xs"
  by (induction xs) (auto dest: json_stringify_Some)

lemma json_members_text:
  "list_all (\<lambda>p. snd p) (map (map_prod id json_representable) ps) \<Longrightarrow>
   list_all (\<lambda>p. escape (fst p) = fst p \<and> snd p) (map (map_prod id plain_keys) ps) \<Longrightarrow>
     concat (map ((\<lambda>(k, t). case t of None \<Rightarrow> [] | Some u \<Rightarrow> [quote k @ '':'' @ u])
                  \<circ> map_prod id JSON_stringify) ps)
       = map (\<lambda>(k, x). CHR 0x22 # k @ [CHR 0x22, CHR '':''] @ the (JSON_stringify x)) ps"
  by (induction ps) (auto simp: quote_def dest: json_stringify_Some)

lemma identity_writes:
  "json_representable v \<Longrightarrow> plain_keys v \<Longrightarrow>
     writes (jsonGenerator n identity_replacer v) (the (JSON_stringify v))"
proof (induction n arbitrary: v)
  case 0
  show ?case by (simp add: writes_def)
next
  case (Suc n)
  let ?g = "jsonGenerator n identity_replacer"
  show ?case
  proof (cases v)
    case (Arr xs)
    with Suc.prems have js: "list_all (\<lambda>b. b) (map json_representable xs)"
      and pk: "list_all (\<lambda>b. b) (map plain_keys xs)" by simp_all
    have "writes (array_loop ?g xs) (join '','' (map (\<lambda>x. the (JSON_stringify x)) xs))"
    proof (rule writes_array_loop)
      fix x assume "x \<in> set xs"
      with js pk have "json_representable x" "plain_keys x" by (auto simp: list_all_iff)
      then show "writes (?g (toJSON x)) (the (JSON_stringify x))"
        by (simp add: json_toJSON Suc.IH)
    qed
    then have loop: "writes (array_loop ?g xs) (join '','' (map (\<lambda>x. the (JSON_stringify x)) xs))" .
    let ?calls = "Call Undefined (Arr xs) # map_calls (\<lambda>key value. value) 0 xs"
    have start: "writes (Some (?calls @ [Yield (Str ''['')])) ''[''"
      using writes_Some[of "?calls @ [Yield (Str ''['')]" "[''['']"] by (simp add: yields_def)
    have gen: "arrayGenerator n identity_replacer xs
        = then_gen (Some (?calls @ [Yield (Str ''['')]))
            (then_gen (array_loop ?g xs) (Some [Yield (Str '']'')]))"
      using js
      by (simp add: array_replace_def identity_replacer_def map_results_identity json_elements_present)
    have "writes (arrayGenerator n identity_replacer xs)
                       (''['' @ join '','' (map (\<lambda>x. the (JSON_stringify x)) xs) @ '']'')"
      unfolding gen by (intro writes_then_gen start loop writes_one)
    then show ?thesis using Arr js by (simp add: json_elements_text)
  next
    case (Obj ps)
    with Suc.prems have js: "list_all (\<lambda>p. snd p) (map (map_prod id json_representable) ps)"
      and pk: "list_all (\<lambda>p. escape (fst p) = fst p \<and> snd p) (map (map_prod id plain_keys) ps)"
      by simp_all
    let ?T = "\<lambda>x. the (JSON_stringify x)"
    have "writes (object_loop ?g ps)
            (join '','' (map (\<lambda>(k, x). CHR 0x22 # k @ [CHR 0x22, CHR '':''] @ ?T x) ps))"
    proof (rule writes_object_loop)
      fix k x assume "(k, x) \<in> set ps"
      with js pk have "json_representable x" "plain_keys x" by (auto simp: list_all_iff)
      then show "writes (?g (toJSON x)) (the (JSON_stringify x))"
        by (simp add: json_toJSON Suc.IH)
    qed
    then have loop: "writes (object_loop ?g ps)
            (join '','' (map (\<lambda>(k, x). CHR 0x22 # k @ [CHR 0x22, CHR '':''] @ ?T x) ps))" .
    let ?start = "Yield (Str ''{'') # Call Undefined (Obj ps) # for_in_calls ps"
    have start: "writes (Some ?start) ''{''"
      using writes_Some[of ?start "[''{'']"] by (simp add: yields_def)
    have gen: "objectGenerator n identity_replacer (Obj ps)
        = then_gen (Some ?start) (then_gen (object_loop ?g ps) (Some [Yield (Str ''}'')]))"
      using js
      by (simp add: object_replace_def identity_replacer_def for_in_replace_identity
            json_members_present Let_def)
    have "writes (objectGenerator n identity_replacer (Obj ps))
        (''{'' @ join '','' (map (\<lambda>(k, x). CHR 0x22 # k @ [CHR 0x22, CHR '':''] @ ?T x) ps) @ ''}'')"
      unfolding gen by (intro writes_then_gen start loop writes_one)
    then show ?thesis using Obj js pk by (simp add: json_members_text)
  qed (use Suc.prems in \<open>simp_all add: stringified_def writes_one\<close>)
qed

lemma array_loop_returns:
  "(\<And>x. x \<in> set xs \<Longrightarrow> \<exists>a. g (toJSON x) = Some a) \<Longrightarrow> \<exists>a. array_loop g xs = Some a"
  by (induction g xs rule: array_loop.induct) (fastforce simp: then_gen_def)+

lemma object_loop_returns:
  "(\<And>k x. (k, x) \<in> set ps \<Longrightarrow> \<exists>a. g (toJSON x) = Some a) \<Longrightarrow> \<exists>a. object_loop g ps = Some a"
  by (induction g ps rule: object_loop.induct) (fastforce simp: then_gen_def)+

lemma identity_returns:
  "json_representable v \<Longrightarrow> depth v < n \<Longrightarrow> \<exists>acts. jsonGenerator n identity_replacer v = Some acts"
proof (induction n arbitrary: v)
  case 0
  then show ?case by simp
next
  case (Suc n)
  let ?g = "jsonGenerator n identity_replacer"
  show ?case
  proof (cases v)
    case (Arr xs)
    with Suc.prems have js: "list_all (\<lambda>b. b) (map json_representable xs)"
      and d: "foldr max (map depth xs) 0 < n" by simp_all
    have "\<exists>a. array_loop ?g xs = Some a"
    proof (rule array_loop_returns)
      fix x assume x: "x \<in> set xs"
      with js have j: "json_representable x" by (auto simp: list_all_iff)
      from x have "depth x \<le> foldr max (map depth xs) 0" by (intro foldr_max_ge) simp
      with d have "depth x < n" by simp
      with j show "\<exists>a. ?g (toJSON x) = Some a" by (simp add: json_toJSON Suc.IH)
    qed
    then show ?thesis using Arr js
      by (auto simp: array_replace_def identity_replacer_def map_results_identity
            json_elements_present then_gen_def)
  next
    case (Obj ps)
    with Suc.prems have js: "list_all (\<lambda>p. snd p) (map (map_prod id json_representable) ps)"
      and d: "foldr max (map snd (map (map_prod id depth) ps)) 0 < n" by simp_all
    have "\<exists>a. object_loop ?g ps = Some a"
    proof (rule object_loop_returns)
      fix k x assume x: "(k, x) \<in> set ps"
      with js have j: "json_representable x" by (auto simp: list_all_iff)
      from x have "depth x \<in> set (map snd (map (map_prod id depth) ps))" by force
      then have "depth x \<le> foldr max (map snd (map (map_prod id depth) ps)) 0"
        by (rule foldr_max_ge)
      with d have "depth x < n" by simp
      with j show "\<exists>a. ?g (toJSON x) = Some a" by (simp add: json_toJSON Suc.IH)
    qed
    then show ?thesis using Obj js
      by (auto simp: object_replace_def identity_replacer_def for_in_replace_identity
            json_members_present then_gen_def Let_def)
  qed (use Suc.prems in simp_all)
qed

lemma plain_keys_match_JSON_stringify:
  assumes "json_representable v" "plain_keys v" "depth v < n"
  shows "emitted n v (ReplacerValue Undefined) = map_option (\<lambda>t. (t, Ended)) (JSON_stringify v)"
proof -
  from identity_returns[OF assms(1,3)] obtain acts
    where acts: "jsonGenerator n identity_replacer v = Some acts" by blast
  from json_stringify_Some[OF assms(1)] obtain t where t: "JSON_stringify v = Some t" by blast
  from identity_writes[OF assms(1,2), of n] acts t obtain ts
    where ts: "observable acts = yields ts" "concat ts = t"
    unfolding writes_def by auto
  have "observable acts = observable (yields ts)" using ts by simp
  from drive_fresh_observable[OF this]
  have "out (drive (fresh acts)) = out (drive (fresh (yields ts)))"
    and "status (drive (fresh acts)) = status (drive (fresh (yields ts)))" .
  moreover have "drive (fresh (yields ts))
      = (fresh (yields ts))\<lparr>jsonIterator := [], out := out (fresh (yields ts)) @ map Data ts @ [End],
                             status := Ended\<rparr>"
    by (rule drive_yields) (simp_all add: fresh_def)
  ultimately have "text_of (out (drive (fresh acts))) = t" "status (drive (fresh acts)) = Ended"
    using ts by (simp_all add: fresh_def text_of_append text_of_Data)
  then show ?thesis using acts t assms(1)
    by (simp add: emitted_def serialize_def JStream_new_def json_toJSON normalize_replacer_def)
qed

section \<open>The claims\<close>

text \<open>
  C1. With the identity replacer the output should be byte-identical to
  \<^verbatim>\<open>JSON.stringify\<close>, also for keys that contain quotes. Line 137 emits the key between
  quotes as it is, where \<^verbatim>\<open>JSON.stringify\<close> escapes it: for the root
  \<^verbatim>\<open>{'a"b': 1}\<close> the stream emits \<^verbatim>\<open>{"a"b":1}\<close> and \<^verbatim>\<open>JSON.stringify\<close> gives
  \<^verbatim>\<open>{"a\"b":1}\<close>. (For keys that need no escaping the two agree:
  \<open>plain_keys_match_JSON_stringify\<close>.)
\<close>

theorem key_label_not_escaped:
  "emitted 2 (Obj [([CHR ''a'', CHR 0x22, CHR ''b''], Num 1)]) (ReplacerValue Undefined)
     = Some (''{'' @ [CHR 0x22] @ [CHR ''a'', CHR 0x22, CHR ''b''] @ [CHR 0x22] @ '':1}'', Ended)
   \<and> JSON_stringify (Obj [([CHR ''a'', CHR 0x22, CHR ''b''], Num 1)])
     = Some (''{'' @ [CHR 0x22] @ ''a'' @ [CHR 0x5C, CHR 0x22] @ ''b'' @ [CHR 0x22] @ '':1}'')"
proof
  have g: "jsonGenerator 2 identity_replacer (Obj [([CHR ''a'', CHR 0x22, CHR ''b''], Num 1)])
     = Some [Yield (Str ''{''), Call Undefined (Obj [([CHR ''a'', CHR 0x22, CHR ''b''], Num 1)]),
             Call (Str [CHR ''a'', CHR 0x22, CHR ''b'']) (Num 1),
             Yield (key_label [CHR ''a'', CHR 0x22, CHR ''b'']), Yield (Str ''1''), Yield (Str ''}'')]"
    by code_simp
  show "emitted 2 (Obj [([CHR ''a'', CHR 0x22, CHR ''b''], Num 1)]) (ReplacerValue Undefined)
     = Some (''{'' @ [CHR 0x22] @ [CHR ''a'', CHR 0x22, CHR ''b''] @ [CHR 0x22] @ '':1}'', Ended)"
    by (simp add: run_eval g bridge_eval key_label_def)
  show "JSON_stringify (Obj [([CHR ''a'', CHR 0x22, CHR ''b''], Num 1)])
     = Some (''{'' @ [CHR 0x22] @ ''a'' @ [CHR 0x5C, CHR 0x22] @ ''b'' @ [CHR 0x22] @ '':1}'')"
    by code_simp
qed

text \<open>
  C2. A promise that resolves to a value with a \<^verbatim>\<open>toJSON\<close> method should serialize as
  the method's result, as the same value does at the root or as a member. Line 37 passes
  the resolved value to \<^verbatim>\<open>jsonGenerator\<close> without \<^verbatim>\<open>toJSON\<close>: a promise of
  \<^verbatim>\<open>{x: 1, toJSON: () => ({a: 1})}\<close> gives \<^verbatim>\<open>{"x":1}\<close>, the value itself
  \<^verbatim>\<open>{"a":1}\<close>. A promise of the string \<^verbatim>\<open>abc\<close> gives \<^verbatim>\<open>"abc"\<close>.
\<close>

theorem resolved_value_skips_toJSON:
  "emitted 3 (Promise 0 (Fulfilled (Obj [(''x'', Num 1), (''toJSON'', Fun (Obj [(''a'', Num 1)]))])))
           (ReplacerValue Undefined)
     = Some (''{'' @ [CHR 0x22] @ ''x'' @ [CHR 0x22] @ '':1}'', Ended)
   \<and> emitted 3 (Obj [(''x'', Num 1), (''toJSON'', Fun (Obj [(''a'', Num 1)]))]) (ReplacerValue Undefined)
     = Some (''{'' @ [CHR 0x22] @ ''a'' @ [CHR 0x22] @ '':1}'', Ended)
   \<and> emitted 3 (Promise 0 (Fulfilled (Str ''abc''))) (ReplacerValue Undefined)
     = Some ([CHR 0x22] @ ''abc'' @ [CHR 0x22], Ended)"
proof (intro conjI)
  have g: "jsonGenerator 3 identity_replacer
             (Promise 0 (Fulfilled (Obj [(''x'', Num 1), (''toJSON'', Fun (Obj [(''a'', Num 1)]))])))
     = Some [SetPMode True,
             Yield (Promise 0 (Fulfilled (Obj [(''x'', Num 1), (''toJSON'', Fun (Obj [(''a'', Num 1)]))]))),
             SetPMode False, Yield (Str ''{''),
             Call Undefined (Obj [(''x'', Num 1), (''toJSON'', Fun (Obj [(''a'', Num 1)]))]),
             Call (Str ''x'') (Num 1), Call (Str ''toJSON'') (Fun (Obj [(''a'', Num 1)])),
             Yield (key_label ''x''), Yield (Str ''1''), Yield (Str ''}'')]"
    by code_simp
  show "emitted 3 (Promise 0 (Fulfilled (Obj [(''x'', Num 1), (''toJSON'', Fun (Obj [(''a'', Num 1)]))])))
           (ReplacerValue Undefined)
     = Some (''{'' @ [CHR 0x22] @ ''x'' @ [CHR 0x22] @ '':1}'', Ended)"
    by (simp add: run_eval g bridge_eval key_label_def)
next
  have g: "jsonGenerator 3 identity_replacer (Obj [(''a'', Num 1)])
     = Some [Yield (Str ''{''), Call Undefined (Obj [(''a'', Num 1)]), Call (Str ''a'') (Num 1),
             Yield (key_label ''a''), Yield (Str ''1''), Yield (Str ''}'')]"
    by code_simp
  show "emitted 3 (Obj [(''x'', Num 1), (''toJSON'', Fun (Obj [(''a'', Num 1)]))]) (ReplacerValue Undefined)
     = Some (''{'' @ [CHR 0x22] @ ''a'' @ [CHR 0x22] @ '':1}'', Ended)"
    by (simp add: run_eval g bridge_eval key_label_def)
next
  have g: "jsonGenerator 3 identity_replacer (Promise 0 (Fulfilled (Str ''abc'')))
     = Some [SetPMode True, Yield (Promise 0 (Fulfilled (Str ''abc''))), SetPMode False,
             Yield (Str ([CHR 0x22] @ ''abc'' @ [CHR 0x22]))]"
    by code_simp
  show "emitted 3 (Promise 0 (Fulfilled (Str ''abc''))) (ReplacerValue Undefined)
     = Some ([CHR 0x22] @ ''abc'' @ [CHR 0x22], Ended)"
    by (simp add: run_eval g bridge_eval)
qed





text \<open>
  C5. When the bound text stream or \<^verbatim>\<open>ObjectReader\<close> fails, or the awaited promise is
  rejected, the run stops there: the chunks the source delivered before are out, the error
  is emitted once, the generator is not resumed (what it had left to do is still there),
  and the transport is not called again. In every run, an error event is the last signal,
  only fragments come before it, and the output has not ended.
\<close>

theorem failure_aborts:
  assumes "status s = Running"
  shows "(src s = Some (TextSource cs (Fails e)) \<longrightarrow>
            drive s = s\<lparr>src := Some (TextSource [] (Fails e)),
                        out := out s @ map (\<lambda>c. Data (escape c)) cs @ [ErrorEvent e],
                        status := Errored e\<rparr>)
       \<and> (src s = Some (ReaderSource cs (Fails e)) \<longrightarrow>
            drive s = s\<lparr>src := Some (ReaderSource [] (Fails e)),
                        out := out s @ map Data cs @ [ErrorEvent e],
                        status := Errored e\<rparr>)
       \<and> (src s = None \<and> jsonIterator s = SetPMode True # Yield (Promise t (Rejected e)) # rest \<longrightarrow>
            drive s = s\<lparr>jsonIterator := rest, pMode := True, now := max (now s) t,
                        out := out s @ [ErrorEvent e], status := Errored e\<rparr>)
       \<and> (\<forall>e' pre post. out (drive s) = out s @ pre @ ErrorEvent e' # post \<longrightarrow>
            post = [] \<and> (\<exists>ds. pre = map Data ds) \<and> status (drive s) = Errored e')"
proof (intro conjI impI allI)
  assume src: "src s = Some (TextSource cs (Fails e))"
  let ?s1 = "s\<lparr>src := Some (TextSource [] (Fails e)), out := out s @ map (\<lambda>c. Data (escape c)) cs\<rparr>"
  have "drive s = drive ?s1" using assms src by (rule drive_text_chunks)
  also have "\<dots> = ?s1\<lparr>out := out ?s1 @ [ErrorEvent e], status := Errored e\<rparr>"
    using assms by (intro drive_source_failed) simp_all
  finally show "drive s = s\<lparr>src := Some (TextSource [] (Fails e)),
                        out := out s @ map (\<lambda>c. Data (escape c)) cs @ [ErrorEvent e],
                        status := Errored e\<rparr>" by simp
next
  assume src: "src s = Some (ReaderSource cs (Fails e))"
  let ?s1 = "s\<lparr>src := Some (ReaderSource [] (Fails e)), out := out s @ map Data cs\<rparr>"
  have "drive s = drive ?s1" using assms src by (rule drive_reader_chunks)
  also have "\<dots> = ?s1\<lparr>out := out ?s1 @ [ErrorEvent e], status := Errored e\<rparr>"
    using assms by (intro drive_source_failed) simp_all
  finally show "drive s = s\<lparr>src := Some (ReaderSource [] (Fails e)),
                        out := out s @ map Data cs @ [ErrorEvent e],
                        status := Errored e\<rparr>" by simp
next
  assume "src s = None \<and> jsonIterator s = SetPMode True # Yield (Promise t (Rejected e)) # rest"
  with assms show "drive s = s\<lparr>jsonIterator := rest, pMode := True, now := max (now s) t,
                        out := out s @ [ErrorEvent e], status := Errored e\<rparr>"
    by (intro drive_rejected) simp_all
next
  fix e' pre post
  assume o: "out (drive s) = out s @ pre @ ErrorEvent e' # post"
  from drive_shape[OF assms] obtain ds where
    "(status (drive s) = Ended \<and> out (drive s) = out s @ map Data ds @ [End])
       \<or> (\<exists>e. status (drive s) = Errored e \<and> out (drive s) = out s @ map Data ds @ [ErrorEvent e])
       \<or> (\<exists>e. status (drive s) = Crashed e \<and> out (drive s) = out s @ map Data ds)"
    unfolding run_shape_def by blast
  then have "post = [] \<and> pre = map Data ds \<and> status (drive s) = Errored e'"
  proof (elim disjE conjE exE)
    assume "out (drive s) = out s @ map Data ds @ [End]"
    with o have "map Data ds @ [End] = pre @ ErrorEvent e' # post" by simp
    with no_error_event(1) show ?thesis by blast
  next
    fix e2 assume st: "status (drive s) = Errored e2"
      and "out (drive s) = out s @ map Data ds @ [ErrorEvent e2]"
    with o have "map Data ds @ [ErrorEvent e2] = pre @ ErrorEvent e' # post" by simp
    from error_event_last[OF this] st show ?thesis by simp
  next
    fix e2 assume "out (drive s) = out s @ map Data ds"
    with o have "map Data ds = pre @ ErrorEvent e' # post" by simp
    with no_error_event(2) show ?thesis by blast
  qed
  then show "post = []" and "\<exists>ds. pre = map Data ds" and "status (drive s) = Errored e'"
    by blast+
qed

theorem failure_aborts_witness:
  "drive \<lparr>jsonIterator = [Yield (Str [CHR 0x22]), Yield (Str '']'')],
          src = Some (TextSource [''ab''] (Fails (Error ''boom''))), pMode = False,
          out = [Data ''['', Data [CHR 0x22]], status = Running, now = 0\<rparr>
     = \<lparr>jsonIterator = [Yield (Str [CHR 0x22]), Yield (Str '']'')],
        src = Some (TextSource [] (Fails (Error ''boom''))), pMode = False,
        out = [Data ''['', Data [CHR 0x22], Data ''ab'', ErrorEvent (Error ''boom'')],
        status = Errored (Error ''boom''), now = 0\<rparr>
   \<and> drive \<lparr>jsonIterator = [Yield (Str '']'')],
          src = Some (ReaderSource [''1'', '',2''] (Fails (Error ''boom''))), pMode = False,
          out = [Data ''[''], status = Running, now = 0\<rparr>
     = \<lparr>jsonIterator = [Yield (Str '']'')],
        src = Some (ReaderSource [] (Fails (Error ''boom''))), pMode = False,
        out = [Data ''['', Data ''1'', Data '',2'', ErrorEvent (Error ''boom'')],
        status = Errored (Error ''boom''), now = 0\<rparr>
   \<and> drive (fresh [SetPMode True, Yield (Promise 7 (Rejected (Error ''boom''))), Yield (Str '']'')])
     = \<lparr>jsonIterator = [Yield (Str '']'')], src = None, pMode = True,
        out = [ErrorEvent (Error ''boom'')], status = Errored (Error ''boom''), now = 7\<rparr>"
proof (intro conjI)
  let ?s = "\<lparr>jsonIterator = [Yield (Str [CHR 0x22]), Yield (Str '']'')],
          src = Some (TextSource [''ab''] (Fails (Error ''boom''))), pMode = False,
          out = [Data ''['', Data [CHR 0x22]], status = Running, now = 0\<rparr>"
  have e: "escape ''ab'' = ''ab''" by code_simp
  have "status ?s = Running" by simp
  from failure_aborts[OF this, where cs = "[''ab'']" and e = "Error ''boom''", THEN conjunct1]
  show "drive ?s = \<lparr>jsonIterator = [Yield (Str [CHR 0x22]), Yield (Str '']'')],
        src = Some (TextSource [] (Fails (Error ''boom''))), pMode = False,
        out = [Data ''['', Data [CHR 0x22], Data ''ab'', ErrorEvent (Error ''boom'')],
        status = Errored (Error ''boom''), now = 0\<rparr>"
    by (simp add: e)
next
  let ?s = "\<lparr>jsonIterator = [Yield (Str '']'')],
          src = Some (ReaderSource [''1'', '',2''] (Fails (Error ''boom''))), pMode = False,
          out = [Data ''[''], status = Running, now = 0\<rparr>"
  have "status ?s = Running" by simp
  from failure_aborts[OF this, where cs = "[''1'', '',2'']" and e = "Error ''boom''",
      THEN conjunct2, THEN conjunct1]
  show "drive ?s = \<lparr>jsonIterator = [Yield (Str '']'')],
        src = Some (ReaderSource [] (Fails (Error ''boom''))), pMode = False,
        out = [Data ''['', Data ''1'', Data '',2'', ErrorEvent (Error ''boom'')],
        status = Errored (Error ''boom''), now = 0\<rparr>"
    by simp
next
  let ?f = "fresh [SetPMode True, Yield (Promise 7 (Rejected (Error ''boom''))), Yield (Str '']'')]"
  have "status ?f = Running" by (simp add: fresh_def)
  from failure_aborts[OF this, where t = 7 and e = "Error ''boom''" and rest = "[Yield (Str '']'')]",
      THEN conjunct2, THEN conjunct2, THEN conjunct1]
  show "drive ?f = \<lparr>jsonIterator = [Yield (Str '']'')], src = None, pMode = True,
        out = [ErrorEvent (Error ''boom'')], status = Errored (Error ''boom''), now = 7\<rparr>"
    by (simp add: fresh_def)
qed



text \<open>
  C7, as amended. An \<^verbatim>\<open>undefined\<close> or function root gives the empty output under every
  replacer argument. Under the identity replacer and under an allowlist such a value is
  \<^verbatim>\<open>null\<close> as an element of an array (the array that is serialized has every position
  of the original, the absent ones \<^verbatim>\<open>null\<close>, and the generator does what it does for
  that array) and is left out as a member of an object (the generator does what it does
  for the object without these members). Under a replacer function it is the function's
  result for the element or member that decides: an absent result gives \<^verbatim>\<open>null\<close> in an
  array and drops the member of an object.
\<close>

theorem absent_values:
  "(absent v \<longrightarrow> signals (Suc n) v a = Some ([Data [], End], Ended))
   \<and> (r = identity_replacer \<or> r = RArray ks \<longrightarrow>
        snd (array_replace r xs) = Some (map null_if_absent xs)
        \<and> shown (arrayGenerator n r xs) = shown (arrayGenerator n r (map null_if_absent xs))
        \<and> shown (objectGenerator n r (Obj ps))
            = shown (objectGenerator n r (Obj (filter (\<lambda>(k, x). \<not> absent x) ps))))
   \<and> (f Undefined (Arr zs) = Arr ys \<longrightarrow>
        snd (array_replace (RFunction f) zs)
          = Some (map (\<lambda>(k, y). if absent (f (Str k) y) then Null else f (Str k) y) (indexed 0 ys)))
   \<and> snd (object_replace (RFunction f) w)
        = map (\<lambda>(k, x). (k, f (Str k) x))
            (filter (\<lambda>(k, x). \<not> absent (f (Str k) x)) (own_properties (f Undefined w)))
   \<and> jsonGenerator (Suc n) r (toJSON Null) = Some [Yield (Str ''null'')]"
proof (intro conjI impI)
  assume "absent v"
  then show "signals (Suc n) v a = Some ([Data [], End], Ended)"
    by (simp add: signals_def serialize_def JStream_new_def absent_toJSON absent_generator
          drive_absent_root del: jsonGenerator.simps)
next
  assume r: "r = identity_replacer \<or> r = RArray ks"
  then show "snd (array_replace r xs) = Some (map null_if_absent xs)"
    by (auto simp: array_replace_def identity_replacer_def map_results_identity)
  from r show "shown (arrayGenerator n r xs) = shown (arrayGenerator n r (map null_if_absent xs))"
    by (auto simp: array_replace_def identity_replacer_def map_results_identity shown_then_gen
          null_if_absent_idem comp_def)
  from r show "shown (objectGenerator n r (Obj ps))
            = shown (objectGenerator n r (Obj (filter (\<lambda>(k, x). \<not> absent x) ps)))"
    by (auto simp: object_replace_def identity_replacer_def for_in_replace_identity shown_then_gen
          filter_filter_absent for_in_allow_filter_absent Let_def)
next
  assume "f Undefined (Arr zs) = Arr ys"
  then show "snd (array_replace (RFunction f) zs)
          = Some (map (\<lambda>(k, y). if absent (f (Str k) y) then Null else f (Str k) y) (indexed 0 ys))"
    by (simp add: array_replace_def map_results_indexed null_if_absent_def)
next
  show "snd (object_replace (RFunction f) w)
        = map (\<lambda>(k, x). (k, f (Str k) x))
            (filter (\<lambda>(k, x). \<not> absent (f (Str k) x)) (own_properties (f Undefined w)))"
    by (simp add: object_replace_def for_in_replace_filter Let_def)
next
  show "jsonGenerator (Suc n) r (toJSON Null) = Some [Yield (Str ''null'')]"
    by (simp add: toJSON_def stringified_def)
qed

theorem absent_values_witness:
  "absent (Fun Null) \<and> signals (Suc 0) (Fun Null) (ReplacerValue (Arr [Str ''a''])) = Some ([Data [], End], Ended)
   \<and> snd (array_replace (RArray [Str ''a'']) [Num 1, Undefined, Fun Null]) = Some [Num 1, Null, Null]
   \<and> defaulting Undefined (Arr [Undefined]) = Arr [Undefined]
   \<and> snd (array_replace (RFunction defaulting) [Undefined]) = Some [Num 5]"
proof -
  note t = absent_values[where v = "Fun Null" and n = 0 and a = "ReplacerValue (Arr [Str ''a''])"
      and r = "RArray [Str ''a'']" and ks = "[Str ''a'']" and xs = "[Num 1, Undefined, Fun Null]"
      and f = defaulting and zs = "[Undefined]" and ys = "[Undefined]"]
  have d: "defaulting Undefined (Arr [Undefined]) = Arr [Undefined]" by (simp add: defaulting_def)
  have i: "map (\<lambda>(k, y). if absent (defaulting (Str k) y) then Null else defaulting (Str k) y)
               (indexed 0 [Undefined]) = [Num 5]"
    by (simp add: defaulting_def)
  from t[THEN conjunct1]
  have p1: "signals (Suc 0) (Fun Null) (ReplacerValue (Arr [Str ''a''])) = Some ([Data [], End], Ended)"
    by simp
  from t[THEN conjunct2, THEN conjunct1]
  have p2: "snd (array_replace (RArray [Str ''a'']) [Num 1, Undefined, Fun Null]) = Some [Num 1, Null, Null]"
    by (simp add: null_if_absent_def)
  from t[THEN conjunct2, THEN conjunct2, THEN conjunct1] d
  have p3: "snd (array_replace (RFunction defaulting) [Undefined]) = Some [Num 5]"
    by (simp only: i)
  from p1 p2 p3 d show ?thesis by simp
qed

text \<open>
  C7 as stated fails under a replacer function: with
  \<^verbatim>\<open>(key, value) => value === undefined ? 5 : value\<close> the array \<^verbatim>\<open>[undefined]\<close> gives
  \<^verbatim>\<open>[5]\<close>, not \<^verbatim>\<open>[null]\<close>, and \<^verbatim>\<open>{a: undefined}\<close> gives \<^verbatim>\<open>{"a":5}\<close>, the key not
  omitted.
\<close>

theorem absent_not_always_null:
  "emitted 2 (Arr [Undefined]) (ReplacerFunction defaulting) = Some (''[5]'', Ended)
   \<and> emitted 2 (Obj [(''a'', Undefined)]) (ReplacerFunction defaulting)
       = Some (''{'' @ [CHR 0x22] @ ''a'' @ [CHR 0x22] @ '':5}'', Ended)"
proof
  have g: "jsonGenerator 2 (RFunction defaulting) (Arr [Undefined])
     = Some [Call Undefined (Arr [Undefined]), Call (Str ''0'') Undefined,
             Yield (Str ''[''), Yield (Str ''5''), Yield (Str '']'')]"
    by code_simp
  show "emitted 2 (Arr [Undefined]) (ReplacerFunction defaulting) = Some (''[5]'', Ended)"
    by (simp add: run_eval g bridge_eval)
  have g: "jsonGenerator 2 (RFunction defaulting) (Obj [(''a'', Undefined)])
     = Some [Yield (Str ''{''), Call Undefined (Obj [(''a'', Undefined)]), Call (Str ''a'') Undefined,
             Yield (key_label ''a''), Yield (Str ''5''), Yield (Str ''}'')]"
    by code_simp
  show "emitted 2 (Obj [(''a'', Undefined)]) (ReplacerFunction defaulting)
       = Some (''{'' @ [CHR 0x22] @ ''a'' @ [CHR 0x22] @ '':5}'', Ended)"
    by (simp add: run_eval g bridge_eval key_label_def)
qed

text \<open>
  C8. Under an allowlist \<^verbatim>\<open>objectGenerator\<close> runs, for every object it is called with, over
  exactly the members whose key is in the allowlist and whose value is neither
  \<^verbatim>\<open>undefined\<close> nor a function, in the object's key order, and passes the same allowlist
  on to the members; \<^verbatim>\<open>arrayGenerator\<close> runs over all elements whatever the allowlist.
  For a tree without \<^verbatim>\<open>toJSON\<close> methods the run is the run without replacer on the tree
  filtered at every depth. The allowlist a, b on \<^verbatim>\<open>{a:1,b:{a:2,c:3},c:4}\<close> gives
  \<^verbatim>\<open>{"a":1,"b":{"a":2}}\<close>.
\<close>

theorem allowlist_filters_every_object:
  "objectGenerator n (RArray ks) (Obj ps) =
     then_gen (Some [Yield (Str ''{'')])
       (then_gen (object_loop (jsonGenerator n (RArray ks))
                    (filter (\<lambda>(k, x). Str k \<in> set ks \<and> \<not> absent x) ps))
          (Some [Yield (Str ''}'')]))
   \<and> arrayGenerator n (RArray ks) xs =
     then_gen (Some [Yield (Str ''['')])
       (then_gen (array_loop (jsonGenerator n (RArray ks)) (map null_if_absent xs))
          (Some [Yield (Str '']'')]))
   \<and> (hook_free v \<longrightarrow>
        signals n v (ReplacerValue (Arr ks)) = signals n (keep_allowed ks v) (ReplacerValue Undefined))
   \<and> emitted 3 (Obj [(''a'', Num 1), (''b'', Obj [(''a'', Num 2), (''c'', Num 3)]), (''c'', Num 4)])
        (ReplacerValue (Arr [Str ''a'', Str ''b'']))
     = Some (''{'' @ [CHR 0x22] @ ''a'' @ [CHR 0x22] @ '':1,'' @ [CHR 0x22] @ ''b'' @ [CHR 0x22]
             @ '':{'' @ [CHR 0x22] @ ''a'' @ [CHR 0x22] @ '':2}}'', Ended)"
proof (intro conjI impI)
  show "objectGenerator n (RArray ks) (Obj ps) =
     then_gen (Some [Yield (Str ''{'')])
       (then_gen (object_loop (jsonGenerator n (RArray ks))
                    (filter (\<lambda>(k, x). Str k \<in> set ks \<and> \<not> absent x) ps))
          (Some [Yield (Str ''}'')]))"
    by (simp add: object_replace_def for_in_allow_filter)
  show "arrayGenerator n (RArray ks) xs =
     then_gen (Some [Yield (Str ''['')])
       (then_gen (array_loop (jsonGenerator n (RArray ks)) (map null_if_absent xs))
          (Some [Yield (Str '']'')]))"
    by (simp add: array_replace_def)
next
  assume hf: "hook_free v"
  have "shown (jsonGenerator n identity_replacer (toJSON (keep_allowed ks v)))
          = shown (jsonGenerator n (RArray ks) (toJSON v))"
    using hf by (simp add: keep_toJSON hook_free_toJSON allowlist_generator)
  from seen_drive_fresh[OF this]
  show "signals n v (ReplacerValue (Arr ks)) = signals n (keep_allowed ks v) (ReplacerValue Undefined)"
    by (simp add: signals_def serialize_def JStream_new_def seen_def option.map_comp comp_def
          normalize_replacer_def)
next
  let ?v = "Obj [(''a'', Num 1), (''b'', Obj [(''a'', Num 2), (''c'', Num 3)]), (''c'', Num 4)]"
  have g: "jsonGenerator 3 (RArray [Str ''a'', Str ''b'']) ?v
     = Some [Yield (Str ''{''), Yield (key_label ''a''), Yield (Str ''1''), Yield (Str '',''),
             Yield (key_label ''b''), Yield (Str ''{''), Yield (key_label ''a''), Yield (Str ''2''),
             Yield (Str ''}''), Yield (Str ''}'')]"
    by code_simp
  show "emitted 3 ?v (ReplacerValue (Arr [Str ''a'', Str ''b'']))
     = Some (''{'' @ [CHR 0x22] @ ''a'' @ [CHR 0x22] @ '':1,'' @ [CHR 0x22] @ ''b'' @ [CHR 0x22]
             @ '':{'' @ [CHR 0x22] @ ''a'' @ [CHR 0x22] @ '':2}}'', Ended)"
    by (simp add: run_eval g bridge_eval key_label_def)
qed

theorem allowlist_filters_every_object_witness:
  "hook_free (Obj [(''a'', Num 1), (''b'', Obj [(''a'', Num 2), (''c'', Num 3)]), (''c'', Num 4)])
   \<and> keep_allowed [Str ''a'', Str ''b'']
        (Obj [(''a'', Num 1), (''b'', Obj [(''a'', Num 2), (''c'', Num 3)]), (''c'', Num 4)])
     = Obj [(''a'', Num 1), (''b'', Obj [(''a'', Num 2)])]
   \<and> emitted 3 (Obj [(''a'', Num 1), (''b'', Obj [(''a'', Num 2)])]) (ReplacerValue Undefined)
     = Some (''{'' @ [CHR 0x22] @ ''a'' @ [CHR 0x22] @ '':1,'' @ [CHR 0x22] @ ''b'' @ [CHR 0x22]
             @ '':{'' @ [CHR 0x22] @ ''a'' @ [CHR 0x22] @ '':2}}'', Ended)"
proof -
  let ?v = "Obj [(''a'', Num 1), (''b'', Obj [(''a'', Num 2), (''c'', Num 3)]), (''c'', Num 4)]"
  let ?ks = "[Str ''a'', Str ''b'']"
  note t = allowlist_filters_every_object[where v = ?v and ks = ?ks and n = 3]
  have hf: "hook_free ?v" by simp
  have k: "keep_allowed ?ks ?v = Obj [(''a'', Num 1), (''b'', Obj [(''a'', Num 2)])]" by simp
  from t[THEN conjunct2, THEN conjunct2, THEN conjunct1] hf
  have "signals 3 ?v (ReplacerValue (Arr ?ks)) = signals 3 (keep_allowed ?ks ?v) (ReplacerValue Undefined)"
    by blast
  then have "emitted 3 (keep_allowed ?ks ?v) (ReplacerValue Undefined)
               = emitted 3 ?v (ReplacerValue (Arr ?ks))"
    by (simp only: emitted_signals)
  with t[THEN conjunct2, THEN conjunct2, THEN conjunct2] hf k show ?thesis
    by (simp only:)
qed

text \<open>
  C9. Under a replacer function \<open>f\<close>, \<^verbatim>\<open>arrayGenerator\<close> and \<^verbatim>\<open>objectGenerator\<close>
  call \<open>f\<close> once with the key \<^verbatim>\<open>undefined\<close> and the whole value, whose result is the
  working value, then once per member of the working value with the member's key (the
  index as a decimal string) and its value, and the generators run over the results
  (\<^verbatim>\<open>null\<close> for an absent result in an array, the member dropped in an object). The
  doubling replacer gives \<^verbatim>\<open>{"a":2,"b":4}\<close> for \<^verbatim>\<open>{a:1,b:2}\<close> and \<^verbatim>\<open>[2,4,6]\<close> for
  \<^verbatim>\<open>[1,2,3]\<close>.
\<close>

theorem transform_function_members:
  "(f Undefined (Arr xs) = Arr ys \<longrightarrow>
      arrayGenerator n (RFunction f) xs =
        then_gen (Some (Call Undefined (Arr xs) # map (\<lambda>(k, y). Call (Str k) y) (indexed 0 ys)
                        @ [Yield (Str ''['')]))
          (then_gen (array_loop (jsonGenerator n (RFunction f))
                       (map (\<lambda>(k, y). null_if_absent (f (Str k) y)) (indexed 0 ys)))
             (Some [Yield (Str '']'')])))
   \<and> objectGenerator n (RFunction f) v =
        then_gen (Some (Yield (Str ''{'') # Call Undefined v
                        # map (\<lambda>(k, x). Call (Str k) x) (own_properties (f Undefined v))))
          (then_gen (object_loop (jsonGenerator n (RFunction f))
                       (map (\<lambda>(k, x). (k, f (Str k) x))
                          (filter (\<lambda>(k, x). \<not> absent (f (Str k) x)) (own_properties (f Undefined v)))))
             (Some [Yield (Str ''}'')]))
   \<and> emitted 2 (Obj [(''a'', Num 1), (''b'', Num 2)]) (ReplacerFunction doubling)
       = Some (''{'' @ [CHR 0x22] @ ''a'' @ [CHR 0x22] @ '':2,'' @ [CHR 0x22] @ ''b'' @ [CHR 0x22] @ '':4}'', Ended)
   \<and> emitted 2 (Arr [Num 1, Num 2, Num 3]) (ReplacerFunction doubling) = Some (''[2,4,6]'', Ended)"
proof (intro conjI impI)
  assume "f Undefined (Arr xs) = Arr ys"
  then show "arrayGenerator n (RFunction f) xs =
        then_gen (Some (Call Undefined (Arr xs) # map (\<lambda>(k, y). Call (Str k) y) (indexed 0 ys)
                        @ [Yield (Str ''['')]))
          (then_gen (array_loop (jsonGenerator n (RFunction f))
                       (map (\<lambda>(k, y). null_if_absent (f (Str k) y)) (indexed 0 ys)))
             (Some [Yield (Str '']'')]))"
    by (simp add: array_replace_def map_calls_indexed map_results_indexed)
next
  show "objectGenerator n (RFunction f) v =
        then_gen (Some (Yield (Str ''{'') # Call Undefined v
                        # map (\<lambda>(k, x). Call (Str k) x) (own_properties (f Undefined v))))
          (then_gen (object_loop (jsonGenerator n (RFunction f))
                       (map (\<lambda>(k, x). (k, f (Str k) x))
                          (filter (\<lambda>(k, x). \<not> absent (f (Str k) x)) (own_properties (f Undefined v)))))
             (Some [Yield (Str ''}'')]))"
    by (simp add: object_replace_def for_in_calls_map for_in_replace_filter Let_def)
next
  have g: "jsonGenerator 2 (RFunction doubling) (Obj [(''a'', Num 1), (''b'', Num 2)])
     = Some [Yield (Str ''{''), Call Undefined (Obj [(''a'', Num 1), (''b'', Num 2)]),
             Call (Str ''a'') (Num 1), Call (Str ''b'') (Num 2),
             Yield (key_label ''a''), Yield (Str ''2''), Yield (Str '',''),
             Yield (key_label ''b''), Yield (Str ''4''), Yield (Str ''}'')]"
    by code_simp
  show "emitted 2 (Obj [(''a'', Num 1), (''b'', Num 2)]) (ReplacerFunction doubling)
       = Some (''{'' @ [CHR 0x22] @ ''a'' @ [CHR 0x22] @ '':2,'' @ [CHR 0x22] @ ''b'' @ [CHR 0x22] @ '':4}'', Ended)"
    by (simp add: run_eval g bridge_eval key_label_def)
next
  have g: "jsonGenerator 2 (RFunction doubling) (Arr [Num 1, Num 2, Num 3])
     = Some [Call Undefined (Arr [Num 1, Num 2, Num 3]),
             Call (Str ''0'') (Num 1), Call (Str ''1'') (Num 2), Call (Str ''2'') (Num 3),
             Yield (Str ''[''), Yield (Str ''2''), Yield (Str '',''), Yield (Str ''4''),
             Yield (Str '',''), Yield (Str ''6''), Yield (Str '']'')]"
    by code_simp
  show "emitted 2 (Arr [Num 1, Num 2, Num 3]) (ReplacerFunction doubling) = Some (''[2,4,6]'', Ended)"
    by (simp add: run_eval g bridge_eval)
qed

theorem transform_function_members_witness:
  "doubling Undefined (Arr [Num 1, Num 2, Num 3]) = Arr [Num 1, Num 2, Num 3]
   \<and> arrayGenerator 1 (RFunction doubling) [Num 1, Num 2, Num 3]
     = Some [Call Undefined (Arr [Num 1, Num 2, Num 3]),
             Call (Str ''0'') (Num 1), Call (Str ''1'') (Num 2), Call (Str ''2'') (Num 3),
             Yield (Str ''[''), Yield (Str ''2''), Yield (Str '',''), Yield (Str ''4''),
             Yield (Str '',''), Yield (Str ''6''), Yield (Str '']'')]"
proof -
  have d: "doubling Undefined (Arr [Num 1, Num 2, Num 3]) = Arr [Num 1, Num 2, Num 3]"
    by (simp add: doubling_def)
  have l: "array_loop (jsonGenerator 1 (RFunction doubling))
             (map (\<lambda>(k, y). null_if_absent (doubling (Str k) y)) (indexed 0 [Num 1, Num 2, Num 3]))
           = Some [Yield (Str ''2''), Yield (Str '',''), Yield (Str ''4''),
                   Yield (Str '',''), Yield (Str ''6'')]"
    by code_simp
  have c: "map (\<lambda>(k, y). Call (Str k) y) (indexed 0 [Num 1, Num 2, Num 3])
           = [Call (Str ''0'') (Num 1), Call (Str ''1'') (Num 2), Call (Str ''2'') (Num 3)]"
    by code_simp
  from transform_function_members[of doubling "[Num 1, Num 2, Num 3]" "[Num 1, Num 2, Num 3]" 1] d
  have "arrayGenerator 1 (RFunction doubling) [Num 1, Num 2, Num 3] =
        then_gen (Some (Call Undefined (Arr [Num 1, Num 2, Num 3])
                        # map (\<lambda>(k, y). Call (Str k) y) (indexed 0 [Num 1, Num 2, Num 3])
                        @ [Yield (Str ''['')]))
          (then_gen (array_loop (jsonGenerator 1 (RFunction doubling))
                       (map (\<lambda>(k, y). null_if_absent (doubling (Str k) y)) (indexed 0 [Num 1, Num 2, Num 3])))
             (Some [Yield (Str '']'')]))"
    by blast
  then show ?thesis using d by (simp only: l c then_gen_def) simp
qed

text \<open>
  C10. A replacer argument that is neither a function nor an array is replaced by the
  identity function by lines 16-20: the stream is the one built with no replacer.
\<close>

theorem replacer_other_is_identity:
  "\<not> is_function v \<Longrightarrow> \<not> is_array v \<Longrightarrow>
     normalize_replacer (ReplacerValue v) = identity_replacer \<and>
     serialize n root (ReplacerValue v) = serialize n root (ReplacerValue Undefined)"
  by (simp add: normalize_replacer_def serialize_def JStream_new_def)

theorem replacer_other_is_identity_witness:
  "\<not> is_function (Str ''x'') \<and> \<not> is_array (Str ''x'')
   \<and> emitted 2 (Obj [(''a'', Num 1)]) (ReplacerValue (Str ''x''))
     = Some (''{'' @ [CHR 0x22] @ ''a'' @ [CHR 0x22] @ '':1}'', Ended)"
proof -
  have g: "jsonGenerator 2 identity_replacer (Obj [(''a'', Num 1)])
     = Some [Yield (Str ''{''), Call Undefined (Obj [(''a'', Num 1)]), Call (Str ''a'') (Num 1),
             Yield (key_label ''a''), Yield (Str ''1''), Yield (Str ''}'')]"
    by code_simp
  have "emitted 2 (Obj [(''a'', Num 1)]) (ReplacerValue Undefined)
          = Some (''{'' @ [CHR 0x22] @ ''a'' @ [CHR 0x22] @ '':1}'', Ended)"
    by (simp add: run_eval g bridge_eval key_label_def)
  with replacer_other_is_identity[of "Str ''x''" 2 "Obj [(''a'', Num 1)]"]
  show ?thesis by (simp add: emitted_def)
qed

end
